theory Spec2Isabelle
  imports Main "HOL-Library.Word"
begin

unbundle bit_operations_syntax

section \<open>The mailbox driver's transaction engine\<close>

text \<open>
  A shallow embedding of \<^verbatim>\<open>mmc-mailbox-driver.c\<close>: the chunk planners, the two
  retrying regmap adapters, the page-lock helpers, the \<^verbatim>\<open>at24_read\<close> and
  \<^verbatim>\<open>at24_write\<close> entry points and the power-off hook.

  Integers have the widths of a 64-bit kernel build (LP64): \<^verbatim>\<open>unsigned int\<close>,
  \<^verbatim>\<open>int\<close> and \<^verbatim>\<open>u32\<close> are 32-bit words, \<^verbatim>\<open>u16\<close> is a 16-bit word,
  \<^verbatim>\<open>size_t\<close>, \<^verbatim>\<open>ssize_t\<close> and \<^verbatim>\<open>unsigned long\<close> are 64-bit words. Words
  carry no sign: a signed reading is written \<open>sint\<close> or \<open><s\<close> where the C type is
  signed. The usual arithmetic conversions of C are written out as \<open>ucast\<close>
  (zero extension or truncation) and \<open>scast\<close> (sign extension).

  Left out: the diagnostic output (\<^verbatim>\<open>dev_dbg\<close>, \<^verbatim>\<open>dev_info\<close>, \<^verbatim>\<open>dev_err\<close>), and
  probing, removal and module initialisation, which establish the session
  (\<^verbatim>\<open>page_size\<close> is not 0, \<^verbatim>\<open>write_max\<close> is the smaller of the page size and
  the I/O limit) and register the power-off hook. The model is sequential: one
  call runs at a time, and the session mutex shows as the events
  \<open>Mutex_lock\<close> and \<open>Mutex_unlock\<close> of the call log.
\<close>

type_synonym u8 = "8 word"
type_synonym u16 = "16 word"
type_synonym u32 = "32 word"
type_synonym u64 = "64 word"

subsection \<open>Session data and module parameters\<close>

text \<open>
  \<^verbatim>\<open>struct at24_data\<close>. The mutex, the nvmem handle, the I2C client and the regmap
  are opaque handles; what the driver does with them appears as events of the
  call log below.
\<close>

record at24_data =
  write_max :: u32
  byte_len :: u32
  page_size :: u16

text \<open>
  What the driver takes from the kernel around it: the two module parameters, the
  kernel's \<^verbatim>\<open>msecs_to_jiffies\<close>, and the answers of the outside world. The outside
  world answers by the position in the call log (below): \<open>jiffies_at n\<close> is what
  a read of \<^verbatim>\<open>jiffies\<close> yields when it is entry \<open>n\<close> of the log,
  \<open>regmap_status n\<close> is the \<^verbatim>\<open>int\<close> that a \<^verbatim>\<open>regmap_bulk_read\<close> or
  \<^verbatim>\<open>regmap_bulk_write\<close> at entry \<open>n\<close> returns, and \<open>pm_status n\<close> the one of
  \<^verbatim>\<open>pm_runtime_get_sync\<close>. Every run of the driver is its run against some such
  kernel.
\<close>

record kernel =
  mmc_mailbox_io_limit :: u32
  at24_write_timeout :: u32
  msecs_to_jiffies :: "u32 \<Rightarrow> u64"
  jiffies_at :: "nat \<Rightarrow> u64"
  regmap_status :: "nat \<Rightarrow> u32"
  pm_status :: "nat \<Rightarrow> u32"

subsection \<open>Buffers and the call log\<close>

text \<open>
  A buffer argument of a regmap call is either an address inside the memory the
  caller of \<^verbatim>\<open>at24_read\<close>/\<^verbatim>\<open>at24_write\<close> passed as \<^verbatim>\<open>val\<close> (\<open>Heap a\<close>), or the
  address of a one-byte local variable of the driver holding the given value
  (\<open>Stack_byte v\<close>: \<^verbatim>\<open>&tmp\<close> in the lock helpers, \<^verbatim>\<open>&stat\<close> in the power-off hook).
\<close>

datatype bufptr = Heap int | Stack_byte u8

datatype dir = Rd | Wr

text \<open>
  What the driver does to the outside world, in order: its reads of the volatile
  tick counter \<^verbatim>\<open>jiffies\<close> (\<open>Jiffies t\<close>, with the value read) and its external
  calls. \<open>Bulk d reg buf n st\<close> is one call of \<^verbatim>\<open>regmap_bulk_read\<close> (\<open>Rd\<close>) or
  \<^verbatim>\<open>regmap_bulk_write\<close> (\<open>Wr\<close>) for \<open>n\<close> bytes at register \<open>reg\<close>, which returned
  \<open>st\<close>.
\<close>

datatype event =
    Jiffies u64
  | Bulk dir u32 bufptr u64 u32
  | Usleep_range nat nat
  | Pm_runtime_get_sync u32
  | Pm_runtime_put_noidle
  | Pm_runtime_put
  | Mutex_lock
  | Mutex_unlock
  | Mdelay nat
  | Warn_on

definition EINVAL :: int where "EINVAL = 22"
definition ETIMEDOUT :: int where "ETIMEDOUT = 110"

definition MB_LOCK_OFFS :: u32 where "MB_LOCK_OFFS = 2047"
definition MB_LOCK_FLAG :: u8 where "MB_LOCK_FLAG = 1"
definition MB_FPGA_STATUS_OFFS :: u32 where "MB_FPGA_STATUS_OFFS = 2046"
definition MB_FPGA_STATUS_SHDN_FINISHED :: u8 where "MB_FPGA_STATUS_SHDN_FINISHED = push_bit 2 1"

subsection \<open>External calls\<close>

definition jiffies :: "kernel \<Rightarrow> event list \<Rightarrow> u64 \<times> event list" where
  "jiffies k log = (let t = jiffies_at k (length log) in (t, log @ [Jiffies t]))"

definition regmap_bulk :: "kernel \<Rightarrow> dir \<Rightarrow> event list \<Rightarrow> u32 \<Rightarrow> bufptr \<Rightarrow> u64 \<Rightarrow> u32 \<times> event list" where
  "regmap_bulk k d log reg buf n =
     (let st = regmap_status k (length log) in (st, log @ [Bulk d reg buf n st]))"

definition usleep_range :: "nat \<Rightarrow> nat \<Rightarrow> event list \<Rightarrow> event list" where
  "usleep_range lo hi log = log @ [Usleep_range lo hi]"

definition pm_runtime_get_sync :: "kernel \<Rightarrow> event list \<Rightarrow> u32 \<times> event list" where
  "pm_runtime_get_sync k log =
     (let st = pm_status k (length log) in (st, log @ [Pm_runtime_get_sync st]))"

definition pm_runtime_put_noidle :: "event list \<Rightarrow> event list" where
  "pm_runtime_put_noidle log = log @ [Pm_runtime_put_noidle]"

definition pm_runtime_put :: "event list \<Rightarrow> event list" where
  "pm_runtime_put log = log @ [Pm_runtime_put]"

definition mutex_lock :: "event list \<Rightarrow> event list" where
  "mutex_lock log = log @ [Mutex_lock]"

definition mutex_unlock :: "event list \<Rightarrow> event list" where
  "mutex_unlock log = log @ [Mutex_unlock]"

definition mdelay :: "nat \<Rightarrow> event list \<Rightarrow> event list" where
  "mdelay ms log = log @ [Mdelay ms]"

definition warn_on :: "event list \<Rightarrow> event list" where
  "warn_on log = log @ [Warn_on]"

text \<open>
  The kernel's \<^verbatim>\<open>time_before(a, b)\<close> is \<^verbatim>\<open>((long)((a) - (b)) < 0)\<close> on
  \<^verbatim>\<open>unsigned long\<close>, and \<^verbatim>\<open>roundup(x, y)\<close> is \<^verbatim>\<open>(((x) + (y - 1)) / y) * y\<close>, here
  at the type \<^verbatim>\<open>unsigned int\<close> of \<^verbatim>\<open>offset + 1\<close>.
\<close>

definition time_before :: "u64 \<Rightarrow> u64 \<Rightarrow> bool" where
  "time_before a b = (sint (a - b) < 0)"

definition roundup :: "u32 \<Rightarrow> u32 \<Rightarrow> u32" where
  "roundup x y = ((x + (y - 1)) div y) * y"

subsection \<open>Chunk planners\<close>

definition at24_adjust_read_count :: "kernel \<Rightarrow> at24_data \<Rightarrow> u32 \<Rightarrow> u64 \<Rightarrow> u64" where
  "at24_adjust_read_count k mmc_mailbox offset count =
     (if count > ucast (mmc_mailbox_io_limit k) then ucast (mmc_mailbox_io_limit k) else count)"

text \<open>
  \<^verbatim>\<open>roundup\<close> divides by the page size: with a page size of zero the division
  traps, and the planner has no result (\<open>None\<close>).
\<close>

definition at24_adjust_write_count :: "at24_data \<Rightarrow> u32 \<Rightarrow> u64 \<Rightarrow> u64 option" where
  "at24_adjust_write_count mmc_mailbox offset count =
     (let count1 = (if count > ucast (write_max mmc_mailbox) then ucast (write_max mmc_mailbox) else count)
      in if page_size mmc_mailbox = 0 then None
         else let next_page = roundup (offset + 1) (ucast (page_size mmc_mailbox))
              in Some (if (ucast offset :: u64) + count1 > ucast next_page
                       then ucast (next_page - offset) else count1))"

subsection \<open>Retrying regmap adapters\<close>

text \<open>
  The \<^verbatim>\<open>do ... while (time_before(..., timeout))\<close> loop of \<^verbatim>\<open>at24_regmap_read\<close> and
  \<^verbatim>\<open>at24_regmap_write\<close>; the two loops differ in the regmap call only. The loop
  need not end (a bus that keeps failing while \<^verbatim>\<open>jiffies\<close> stands still), so the
  result is an option: \<open>None\<close> is a call that does not return. The value returned
  is the \<^verbatim>\<open>ssize_t\<close>.
\<close>

partial_function (option) retry_loop ::
  "kernel \<Rightarrow> dir \<Rightarrow> u64 \<Rightarrow> bufptr \<Rightarrow> u32 \<Rightarrow> u64 \<Rightarrow> event list \<Rightarrow> (u64 \<times> event list) option" where
  "retry_loop k d timeout buf offset count log =
     (let (op_time, log0) = jiffies k log;
          (ret, log1) = regmap_bulk k d log0 offset buf count
      in if ret = 0 then Some (count, log1)
         else let log2 = usleep_range 1000 1500 log1
              in if time_before op_time timeout
                 then retry_loop k d timeout buf offset count log2
                 else Some (- word_of_int ETIMEDOUT, log2))"

declare retry_loop.simps [code]

definition at24_regmap_read :: "kernel \<Rightarrow> at24_data \<Rightarrow> event list \<Rightarrow> bufptr \<Rightarrow> u32 \<Rightarrow> u64 \<Rightarrow> (u64 \<times> event list) option" where
  "at24_regmap_read k mmc_mailbox log buf offset count =
     (let count' = at24_adjust_read_count k mmc_mailbox offset count;
          (now, log0) = jiffies k log;
          timeout = now + msecs_to_jiffies k (at24_write_timeout k)
      in retry_loop k Rd timeout buf offset count' log0)"

definition at24_regmap_write :: "kernel \<Rightarrow> at24_data \<Rightarrow> event list \<Rightarrow> bufptr \<Rightarrow> u32 \<Rightarrow> u64 \<Rightarrow> (u64 \<times> event list) option" where
  "at24_regmap_write k mmc_mailbox log buf offset count =
     (case at24_adjust_write_count mmc_mailbox offset count of
        None \<Rightarrow> None
      | Some count' \<Rightarrow>
          let (now, log0) = jiffies k log;
              timeout = now + msecs_to_jiffies k (at24_write_timeout k)
          in retry_loop k Wr timeout buf offset count' log0)"

subsection \<open>Page lock\<close>

text \<open>
  Both helpers discard what \<^verbatim>\<open>at24_regmap_write\<close> returns; \<^verbatim>\<open>sizeof(tmp)\<close> is 1.
\<close>

definition lock_if_multiple :: "kernel \<Rightarrow> at24_data \<Rightarrow> event list \<Rightarrow> u64 \<Rightarrow> (bool \<times> event list) option" where
  "lock_if_multiple k mmc_mailbox log count =
     (if count \<le> 1 then Some (False, log)
      else case at24_regmap_write k mmc_mailbox log (Stack_byte MB_LOCK_FLAG) MB_LOCK_OFFS 1 of
             None \<Rightarrow> None
           | Some (r, log1) \<Rightarrow> Some (True, log1))"

definition unlock_if_locked :: "kernel \<Rightarrow> at24_data \<Rightarrow> event list \<Rightarrow> bool \<Rightarrow> event list option" where
  "unlock_if_locked k mmc_mailbox log locked =
     (if \<not> locked then Some log
      else case at24_regmap_write k mmc_mailbox log (Stack_byte 0) MB_LOCK_OFFS 1 of
             None \<Rightarrow> None
           | Some (r, log1) \<Rightarrow> Some log1)"

subsection \<open>Read and write entry points\<close>

text \<open>
  The \<^verbatim>\<open>while (count)\<close> loop of \<^verbatim>\<open>at24_read\<close> and \<^verbatim>\<open>at24_write\<close>, which differ
  in the adapter \<open>xfer\<close> only. \<open>buf\<close> is the address the cursor \<^verbatim>\<open>char *buf\<close> holds.
  The adapter's \<^verbatim>\<open>ssize_t\<close> is stored into \<^verbatim>\<open>int ret\<close> (truncation); \<^verbatim>\<open>off += ret\<close> is
  32-bit, \<^verbatim>\<open>count -= ret\<close> converts \<^verbatim>\<open>ret\<close> to \<^verbatim>\<open>size_t\<close> (sign extension). The
  loop either returns from the function (\<open>Returned ret\<close>, after unlocking the mutex
  and \<^verbatim>\<open>pm_runtime_put\<close>) or runs to its end (\<open>Completed\<close>).
\<close>

datatype loop_exit = Returned u32 | Completed

partial_function (option) chunk_loop ::
  "(event list \<Rightarrow> bufptr \<Rightarrow> u32 \<Rightarrow> u64 \<Rightarrow> (u64 \<times> event list) option)
     \<Rightarrow> int \<Rightarrow> u32 \<Rightarrow> u64 \<Rightarrow> event list \<Rightarrow> (loop_exit \<times> event list) option" where
  "chunk_loop xfer buf off count log =
     (if count = 0 then Some (Completed, log)
      else case xfer log (Heap buf) off count of
             None \<Rightarrow> None
           | Some (r, log1) \<Rightarrow>
               let ret = (ucast r :: u32)
               in if ret <s 0 then Some (Returned ret, pm_runtime_put (mutex_unlock log1))
                  else chunk_loop xfer (buf + sint ret) (off + ret) (count - scast ret) log1)"

declare chunk_loop.simps [code]

definition at24_read :: "kernel \<Rightarrow> at24_data \<Rightarrow> event list \<Rightarrow> u32 \<Rightarrow> int \<Rightarrow> u64 \<Rightarrow> (u32 \<times> event list) option" where
  "at24_read k mmc_mailbox log off val count =
     (if count = 0 then Some (ucast count, log)
      else if ucast off + count > ucast (byte_len mmc_mailbox) then Some (- word_of_int EINVAL, log)
      else let (ret, log1) = pm_runtime_get_sync k log
           in if ret <s 0 then Some (ret, pm_runtime_put_noidle log1)
              else case lock_if_multiple k mmc_mailbox (mutex_lock log1) count of
                     None \<Rightarrow> None
                   | Some (locked, log2) \<Rightarrow>
                      (case chunk_loop (at24_regmap_read k mmc_mailbox) val off count log2 of
                         None \<Rightarrow> None
                       | Some (Returned r, log3) \<Rightarrow> Some (r, log3)
                       | Some (Completed, log3) \<Rightarrow>
                          (case unlock_if_locked k mmc_mailbox log3 locked of
                             None \<Rightarrow> None
                           | Some log4 \<Rightarrow> Some (0, pm_runtime_put (mutex_unlock log4)))))"

definition at24_write :: "kernel \<Rightarrow> at24_data \<Rightarrow> event list \<Rightarrow> u32 \<Rightarrow> int \<Rightarrow> u64 \<Rightarrow> (u32 \<times> event list) option" where
  "at24_write k mmc_mailbox log off val count =
     (if count = 0 then Some (- word_of_int EINVAL, log)
      else if ucast off + count > ucast (byte_len mmc_mailbox) then Some (- word_of_int EINVAL, log)
      else let (ret, log1) = pm_runtime_get_sync k log
           in if ret <s 0 then Some (ret, pm_runtime_put_noidle log1)
              else case lock_if_multiple k mmc_mailbox (mutex_lock log1) count of
                     None \<Rightarrow> None
                   | Some (locked, log2) \<Rightarrow>
                      (case chunk_loop (at24_regmap_write k mmc_mailbox) val off count log2 of
                         None \<Rightarrow> None
                       | Some (Returned r, log3) \<Rightarrow> Some (r, log3)
                       | Some (Completed, log3) \<Rightarrow>
                          (case unlock_if_locked k mmc_mailbox log3 locked of
                             None \<Rightarrow> None
                           | Some log4 \<Rightarrow> Some (0, pm_runtime_put (mutex_unlock log4)))))"

subsection \<open>Power-off hook\<close>

text \<open>
  \<^verbatim>\<open>mmc_mb_pwroff_inst\<close> is the global session pointer, \<open>None\<close> when it is
  \<^verbatim>\<open>NULL\<close>. In that branch the argument of \<^verbatim>\<open>dev_err\<close> reads
  \<^verbatim>\<open>mmc_mb_pwroff_inst->client\<close> through the null pointer, so the call does not
  return (\<open>None\<close>). Otherwise the hook makes one regmap call, whose status it
  ignores, delays, warns and returns to its caller.
\<close>

definition mmc_mailbox_do_poweroff :: "kernel \<Rightarrow> at24_data option \<Rightarrow> event list \<Rightarrow> event list option" where
  "mmc_mailbox_do_poweroff k mmc_mb_pwroff_inst log =
     (case mmc_mb_pwroff_inst of
        None \<Rightarrow> None
      | Some inst \<Rightarrow>
          let (ret, log1) = regmap_bulk k Wr log MB_FPGA_STATUS_OFFS (Stack_byte MB_FPGA_STATUS_SHDN_FINISHED) 1
          in Some (warn_on (mdelay 1000 log1)))"

section \<open>Dispatch over the direction\<close>

text \<open>
  \<^verbatim>\<open>at24_read\<close> and \<^verbatim>\<open>at24_write\<close>, and likewise \<^verbatim>\<open>at24_regmap_read\<close> and
  \<^verbatim>\<open>at24_regmap_write\<close>, are the same text up to the planner, the regmap call
  and the zero-length policy. Statements about both are written over a direction.
\<close>

definition plan :: "kernel \<Rightarrow> at24_data \<Rightarrow> dir \<Rightarrow> u32 \<Rightarrow> u64 \<Rightarrow> u64 option" where
  "plan k mmc_mailbox d offset count =
     (case d of Rd \<Rightarrow> Some (at24_adjust_read_count k mmc_mailbox offset count)
      | Wr \<Rightarrow> at24_adjust_write_count mmc_mailbox offset count)"

definition at24_regmap :: "dir \<Rightarrow> kernel \<Rightarrow> at24_data \<Rightarrow> event list \<Rightarrow> bufptr \<Rightarrow> u32 \<Rightarrow> u64 \<Rightarrow> (u64 \<times> event list) option" where
  "at24_regmap d = (case d of Rd \<Rightarrow> at24_regmap_read | Wr \<Rightarrow> at24_regmap_write)"

definition at24_call :: "dir \<Rightarrow> kernel \<Rightarrow> at24_data \<Rightarrow> event list \<Rightarrow> u32 \<Rightarrow> int \<Rightarrow> u64 \<Rightarrow> (u32 \<times> event list) option" where
  "at24_call d = (case d of Rd \<Rightarrow> at24_read | Wr \<Rightarrow> at24_write)"

text \<open>The two entry points from the bounds check on.\<close>

definition at24_body :: "dir \<Rightarrow> kernel \<Rightarrow> at24_data \<Rightarrow> event list \<Rightarrow> u32 \<Rightarrow> int \<Rightarrow> u64 \<Rightarrow> (u32 \<times> event list) option" where
  "at24_body d k mmc_mailbox log off val count =
     (if ucast off + count > ucast (byte_len mmc_mailbox) then Some (- word_of_int EINVAL, log)
      else let (ret, log1) = pm_runtime_get_sync k log
           in if ret <s 0 then Some (ret, pm_runtime_put_noidle log1)
              else case lock_if_multiple k mmc_mailbox (mutex_lock log1) count of
                     None \<Rightarrow> None
                   | Some (locked, log2) \<Rightarrow>
                      (case chunk_loop (at24_regmap d k mmc_mailbox) val off count log2 of
                         None \<Rightarrow> None
                       | Some (Returned r, log3) \<Rightarrow> Some (r, log3)
                       | Some (Completed, log3) \<Rightarrow>
                          (case unlock_if_locked k mmc_mailbox log3 locked of
                             None \<Rightarrow> None
                           | Some log4 \<Rightarrow> Some (0, pm_runtime_put (mutex_unlock log4)))))"

section \<open>What a call log must look like\<close>

text \<open>
  The log of the retry loop of one adapter call, as the specification words it:
  each attempt samples \<^verbatim>\<open>jiffies\<close> and then makes the regmap call for the planned
  length \<open>n\<close>; a successful attempt ends the log and the result is \<open>n\<close>; a failed
  one is followed by the back-off sleep, and then by a further attempt exactly
  when the sampled time was before the deadline; otherwise the log ends and the
  result is \<^verbatim>\<open>-ETIMEDOUT\<close>.
\<close>

fun retry_trace :: "dir \<Rightarrow> bufptr \<Rightarrow> u32 \<Rightarrow> u64 \<Rightarrow> u64 \<Rightarrow> event list \<Rightarrow> u64 \<Rightarrow> bool" where
  "retry_trace d buf reg n timeout (Jiffies t # Bulk d' reg' buf' n' st # es) r =
     (d' = d \<and> reg' = reg \<and> buf' = buf \<and> n' = n \<and>
      (if st = 0 then es = [] \<and> r = n
       else (case es of
               Usleep_range lo hi # es' \<Rightarrow> lo = 1000 \<and> hi = 1500 \<and>
                  (if time_before t timeout then retry_trace d buf reg n timeout es' r
                   else es' = [] \<and> r = - word_of_int ETIMEDOUT)
             | _ \<Rightarrow> False)))"
| "retry_trace _ _ _ _ _ _ _ = False"

text \<open>
  The log of a whole adapter call: the read of \<^verbatim>\<open>jiffies\<close> that fixes the deadline,
  then the retry loop against that deadline.
\<close>

fun adapter_trace :: "kernel \<Rightarrow> dir \<Rightarrow> bufptr \<Rightarrow> u32 \<Rightarrow> u64 \<Rightarrow> event list \<Rightarrow> u64 \<Rightarrow> bool" where
  "adapter_trace k d buf reg n (Jiffies now # es) r =
     retry_trace d buf reg n (now + msecs_to_jiffies k (at24_write_timeout k)) es r"
| "adapter_trace _ _ _ _ _ _ _ = False"

fun succeeded :: "event \<Rightarrow> bool" where
  "succeeded (Bulk d reg buf n st) = (st = 0)"
| "succeeded _ = False"

text \<open>
  Attempt \<open>j\<close> of a retry loop entered with log length \<open>len\<close> occupies the log
  entries \<open>len + 3 * j\<close> (the sample) and \<open>len + 3 * j + 1\<close> (the regmap call). It
  ends the loop if it succeeds or if its sample is not before the deadline.
\<close>

definition ends_loop :: "kernel \<Rightarrow> nat \<Rightarrow> u64 \<Rightarrow> nat \<Rightarrow> bool" where
  "ends_loop k len timeout j =
     (regmap_status k (len + 3 * j + 1) = 0 \<or> \<not> time_before (jiffies_at k (len + 3 * j)) timeout)"

text \<open>
  A control write is a regmap write to the lock byte from a local of the driver;
  the data chunks of a request use the caller's buffer.
\<close>

fun control_write :: "event \<Rightarrow> bool" where
  "control_write (Bulk Wr reg (Stack_byte b) n st) = (reg = MB_LOCK_OFFS)"
| "control_write _ = False"

fun data_event :: "event \<Rightarrow> bool" where
  "data_event (Jiffies t) = True"
| "data_event (Usleep_range lo hi) = True"
| "data_event (Bulk d reg (Heap a) n st) = True"
| "data_event _ = False"

fun req_event :: "dir \<Rightarrow> bufptr \<Rightarrow> u32 \<Rightarrow> u64 \<Rightarrow> event \<Rightarrow> bool" where
  "req_event d buf reg n (Jiffies t) = True"
| "req_event d buf reg n (Usleep_range lo hi) = True"
| "req_event d buf reg n (Bulk d' reg' buf' n' st) = (d' = d \<and> reg' = reg \<and> buf' = buf \<and> n' = n)"
| "req_event _ _ _ _ _ = False"

fun exit_tail :: "loop_exit \<Rightarrow> event list" where
  "exit_tail Completed = []"
| "exit_tail (Returned r) = [Mutex_unlock, Pm_runtime_put]"

text \<open>
  A regmap call on the caller's buffer lies within the request \<open>(off, val, count)\<close>
  if its registers are inside \<open>[off, off + count)\<close> and its buffer address is as
  far from \<open>val\<close> as its register is from \<open>off\<close>.
\<close>

fun within :: "u32 \<Rightarrow> int \<Rightarrow> u64 \<Rightarrow> event \<Rightarrow> bool" where
  "within off val count (Bulk d reg (Heap a) n st) =
     (unat off \<le> unat reg \<and> unat reg + unat n \<le> unat off + unat count
      \<and> a - val = int (unat reg) - int (unat off))"
| "within _ _ _ _ = True"

text \<open>
  The chunks that were transferred (successful regmap calls on the caller's
  buffer), and the replay of the pending transfer \<open>(offset, cursor, remaining)\<close>
  over them: each chunk must start where the transfer stands and be no longer
  than what remains; it advances offset and cursor and reduces the remainder by
  its length.
\<close>

fun chunks :: "event list \<Rightarrow> (u32 \<times> int \<times> u64) list" where
  "chunks [] = []"
| "chunks (Bulk d reg (Heap a) n st # es) = (if st = 0 then (reg, a, n) # chunks es else chunks es)"
| "chunks (e # es) = chunks es"

fun advance :: "nat \<times> int \<times> nat \<Rightarrow> (u32 \<times> int \<times> u64) list \<Rightarrow> (nat \<times> int \<times> nat) option" where
  "advance s [] = Some s"
| "advance (off, cur, rest) ((reg, a, n) # cs) =
     (if unat reg = off \<and> a = cur \<and> unat n \<le> rest
      then advance (off + unat n, cur + int (unat n), rest - unat n) cs
      else None)"

text \<open>
  The log of one control write of byte \<open>b\<close> to the lock byte: one adapter call
  for the length the write planner gives a one-byte request at the lock offset,
  ending with that length or with \<^verbatim>\<open>-ETIMEDOUT\<close>.
\<close>

definition control_trace :: "kernel \<Rightarrow> at24_data \<Rightarrow> u8 \<Rightarrow> event list \<Rightarrow> bool" where
  "control_trace k mmc_mailbox b tr =
     (case at24_adjust_write_count mmc_mailbox MB_LOCK_OFFS 1 of
        None \<Rightarrow> False
      | Some n \<Rightarrow> adapter_trace k Wr (Stack_byte b) MB_LOCK_OFFS n tr n
                  \<or> adapter_trace k Wr (Stack_byte b) MB_LOCK_OFFS n tr (- word_of_int ETIMEDOUT))"

text \<open>
  The specification's \<open>round_up\<close>, on unbounded numbers, and the deadline of an
  adapter call entered with the given log: the time read at entry plus the
  write timeout in ticks.
\<close>

definition round_up :: "nat \<Rightarrow> nat \<Rightarrow> nat" where
  "round_up x y = ((x + (y - 1)) div y) * y"

definition deadline :: "kernel \<Rightarrow> event list \<Rightarrow> u64" where
  "deadline k log = jiffies_at k (length log) + msecs_to_jiffies k (at24_write_timeout k)"

section \<open>Concrete sessions and kernels\<close>

text \<open>
  The mailbox of the device table (2048 bytes, pages of 16 bytes), and a session
  whose region ends one byte below \<open>2 ^ 32\<close>. The demonstration kernel has the
  default module parameters, \<^verbatim>\<open>msecs_to_jiffies\<close> for \<^verbatim>\<open>HZ = 250\<close>, a tick counter
  that advances by 4 with every log entry, a power management that always
  resumes, and a bus that fails with \<^verbatim>\<open>-EIO\<close> exactly at the given log positions.
\<close>

definition mailbox :: at24_data where
  "mailbox = \<lparr> write_max = 16, byte_len = 2048, page_size = 16 \<rparr>"

definition top_session :: at24_data where
  "top_session = \<lparr> write_max = 16, byte_len = 0xFFFFFFFF, page_size = 16 \<rparr>"

definition demo_kernel :: "nat list \<Rightarrow> kernel" where
  "demo_kernel failing =
     \<lparr> mmc_mailbox_io_limit = 128, at24_write_timeout = 25,
       msecs_to_jiffies = (\<lambda>ms. ucast ((ms + 3) div 4)),
       jiffies_at = (\<lambda>n. 4 * of_nat n),
       regmap_status = (\<lambda>n. if n \<in> set failing then - 5 else 0),
       pm_status = (\<lambda>n. 0) \<rparr>"

section \<open>Words as numbers\<close>

lemma unat_u32_less: "unat (x :: u32) < 2 ^ 32"
  using unsigned_less[of x, where 'a = nat] by simp

lemma unat_u16_less: "unat (x :: u16) < 2 ^ 16"
  using unsigned_less[of x, where 'a = nat] by simp

lemma unat_ucast_32_64: "unat (ucast (x :: u32) :: u64) = unat x"
proof -
  have "unat x < 2 ^ 64" using unat_u32_less[of x] by simp
  then show ?thesis by (simp add: unsigned_ucast_eq take_bit_nat_eq_self)
qed

lemma unat_ucast_16_32: "unat (ucast (x :: u16) :: u32) = unat x"
proof -
  have "unat x < 2 ^ 32" using unat_u16_less[of x] by simp
  then show ?thesis by (simp add: unsigned_ucast_eq take_bit_nat_eq_self)
qed

lemma unat_ucast_64_32: "unat (x :: u64) < 2 ^ 32 \<Longrightarrow> unat (ucast x :: u32) = unat x"
  by (simp add: unsigned_ucast_eq take_bit_nat_eq_self)

lemma ucast_ucast_64_32_64:
  assumes "unat (x :: u64) < 2 ^ 32"
  shows "(ucast (ucast x :: u32) :: u64) = x"
proof -
  have "unat (ucast (ucast x :: u32) :: u64) = unat x"
    by (simp only: unat_ucast_32_64 unat_ucast_64_32[OF assms])
  then show ?thesis by (rule word_unat_eq_iff[THEN iffD2])
qed

lemma sint_u32_nonneg:
  fixes x :: u32
  assumes "\<not> x <s 0"
  shows "unat x < 2 ^ 31" and "sint x = int (unat x)"
proof -
  have s: "sint x = signed_take_bit 31 (uint x)"
    by (simp add: sint_uint)
  have nn: "0 \<le> sint x"
    using assms by (simp only: word_sless_alt sint_0 not_less)
  have top: "uint x < 2 ^ 32"
    using uint_lt2p[of x] by simp
  have small: "uint x < 2 ^ 31"
  proof (rule ccontr)
    assume "\<not> uint x < 2 ^ 31"
    then have big: "2 ^ 31 \<le> uint x" by simp
    have "signed_take_bit (31::nat) (uint x) \<le> uint x - 2 ^ Suc 31"
      using big by (rule signed_take_bit_int_less_eq)
    then have "sint x \<le> uint x - 2 ^ 32" by (simp only: s) simp
    with top nn show False by linarith
  qed
  then have "int (unat x) < int (2 ^ 31)" by simp
  then show "unat x < 2 ^ 31" by (simp only: of_nat_less_iff)
  have "- (2 ^ 31) \<le> (0::int)" by simp
  also have "0 \<le> uint x" by simp
  finally have "signed_take_bit (31::nat) (uint x) = uint x"
    using small by (rule signed_take_bit_int_eq_self)
  then show "sint x = int (unat x)" by (simp only: s) simp
qed

lemma scast_u32_nonneg:
  fixes x :: u32
  assumes "\<not> x <s 0"
  shows "(scast x :: u64) = ucast x"
proof -
  have "(scast x :: u64) = word_of_int (sint x)" by (rule scast_eq)
  also have "sint x = uint x" using sint_u32_nonneg(2)[OF assms] by simp
  also have "(word_of_int (uint x) :: u64) = ucast x" by (rule ucast_eq[symmetric])
  finally show ?thesis .
qed

lemma etimedout_negative: "(ucast (- word_of_int ETIMEDOUT :: u64) :: u32) <s 0"
  by (simp add: ETIMEDOUT_def word_sless_alt)

lemma etimedout_large: "2 ^ 32 \<le> unat (- word_of_int ETIMEDOUT :: u64)"
  by (simp add: ETIMEDOUT_def)

section \<open>Rounding up to a page\<close>

lemma roundup_unat:
  fixes x y :: u32
  assumes "y \<noteq> 0" and "unat x + unat y \<le> 2 ^ 32"
  shows "unat (roundup x y) = ((unat x + (unat y - 1)) div unat y) * unat y"
proof -
  have ypos: "0 < unat y" using assms(1) by (simp add: unat_gt_0)
  have y1: "unat (y - 1) = unat y - 1"
    using ypos by (simp add: unat_minus_one assms(1))
  have "unat x + unat (y - 1) < 2 ^ 32" using assms(2) ypos y1 by simp
  then have s: "unat (x + (y - 1)) = unat x + (unat y - 1)"
    using unat_add_lem[of x "y - 1"] y1 by simp
  have d: "unat ((x + (y - 1)) div y) = (unat x + (unat y - 1)) div unat y"
    by (simp add: unat_div s)
  have "(unat x + (unat y - 1)) div unat y * unat y \<le> unat x + (unat y - 1)"
    by simp
  also have "\<dots> < 2 ^ 32" using assms(2) ypos by simp
  finally have "unat ((x + (y - 1)) div y) * unat y < 2 ^ 32" by (simp only: d)
  then have "unat ((x + (y - 1)) div y * y) = unat ((x + (y - 1)) div y) * unat y"
    using unat_mult_lem[of "(x + (y - 1)) div y" y] by simp
  then show ?thesis by (simp add: roundup_def d)
qed

section \<open>The write planner in numbers\<close>

lemma next_page_nat:
  fixes p :: nat
  assumes "0 < p"
  shows "(off + 1 + (p - 1)) div p * p = (off div p + 1) * p"
proof -
  have "off + 1 + (p - 1) = off + p" using assms by simp
  moreover have "(off + p) div p = off div p + 1" using assms by (simp add: div_add_self2)
  ultimately show ?thesis by simp
qed

lemma next_page_bounds:
  fixes p :: nat
  assumes "0 < p"
  shows "off < (off div p + 1) * p" and "(off div p + 1) * p \<le> off + p"
proof -
  have "off = off div p * p + off mod p" by simp
  moreover have "off mod p < p" using assms by simp
  ultimately show "off < (off div p + 1) * p"
    by (metis add.commute div_less_iff_less_mult assms less_add_one)
  have "off div p * p \<le> off" by simp
  then show "(off div p + 1) * p \<le> off + p" by (simp add: algebra_simps)
qed

lemma write_planner_unat:
  assumes ps: "page_size m \<noteq> 0"
    and nw: "unat offset + unat (page_size m) < 2 ^ 32"
  shows "\<exists>L. at24_adjust_write_count m offset count = Some L
           \<and> unat L = min (min (unat count) (unat (write_max m)))
                         ((unat offset div unat (page_size m) + 1) * unat (page_size m) - unat offset)"
proof -
  let ?y = "ucast (page_size m) :: u32"
  let ?p = "unat (page_size m)"
  let ?o = "unat offset"
  let ?N = "(?o div ?p + 1) * ?p"
  define c1 where "c1 = (if count > ucast (write_max m) then ucast (write_max m) else count)"
  define np where "np = roundup (offset + 1) ?y"
  have ppos: "0 < ?p" using ps by (simp add: unat_gt_0)
  have uy: "unat ?y = ?p" by (rule unat_ucast_16_32)
  have ynz: "?y \<noteq> 0" using uy ppos by (metis unat_0 less_numeral_extra(3))
  have "?o + unat (1 :: u32) < 2 ^ 32" using nw ppos by simp
  then have ux: "unat (offset + 1) = ?o + 1"
    using unat_add_lem[of offset 1] by simp
  have "unat np = (unat (offset + 1) + (unat ?y - 1)) div unat ?y * unat ?y"
    unfolding np_def using nw ux uy by (intro roundup_unat[OF ynz]) simp
  then have unp: "unat np = ?N"
    by (simp only: ux uy next_page_nat[OF ppos])
  have Nlo: "?o < ?N" and Nhi: "?N \<le> ?o + ?p"
    using next_page_bounds[OF ppos, of ?o] by simp_all
  have uc1: "unat c1 = min (unat count) (unat (write_max m))"
    by (auto simp add: c1_def min_def word_less_nat_alt unat_ucast_32_64)
  have c1small: "unat c1 < 2 ^ 32"
    using uc1 unat_u32_less[of "write_max m"] by simp
  have "unat (ucast offset :: u64) + unat c1 < 2 ^ 64"
    using c1small unat_u32_less[of offset] by (simp only: unat_ucast_32_64) simp
  then have usum: "unat ((ucast offset :: u64) + c1) = ?o + unat c1"
    using unat_add_lem[of "ucast offset :: u64" c1] by (simp only: unat_ucast_32_64) simp
  have cond: "((ucast offset :: u64) + c1 > ucast np) \<longleftrightarrow> ?o + unat c1 > ?N"
    by (simp only: word_less_nat_alt usum unat_ucast_32_64 unp)
  have "offset \<le> np" using Nlo unp by (simp add: word_le_nat_alt)
  then have "unat (np - offset) = ?N - ?o"
    by (simp only: unat_sub unp)
  then have udiff: "unat (ucast (np - offset) :: u64) = ?N - ?o"
    by (simp only: unat_ucast_32_64)
  define L where "L = (if (ucast offset :: u64) + c1 > ucast np then ucast (np - offset) else c1)"
  have def: "at24_adjust_write_count m offset count = Some L"
    using ps by (simp add: at24_adjust_write_count_def Let_def L_def c1_def np_def)
  have "unat L = min (unat c1) (?N - ?o)"
  proof (cases "?o + unat c1 > ?N")
    case True
    then have "unat L = ?N - ?o" using cond udiff by (simp add: L_def)
    with True show ?thesis by simp
  next
    case False
    then have "unat L = unat c1" using cond by (simp add: L_def)
    with False show ?thesis by simp
  qed
  with def uc1 show ?thesis by simp
qed

lemma write_planner_small:
  assumes "at24_adjust_write_count m offset count = Some L"
  shows "unat L < 2 ^ 32"
proof -
  have a: "unat (ucast (x :: u32) :: u64) < 2 ^ 32" for x
    using unat_u32_less[of x] by (simp only: unat_ucast_32_64)
  have b: "count \<le> ucast (write_max m) \<Longrightarrow> unat count < 2 ^ 32"
    using a[of "write_max m"] by (simp add: word_le_nat_alt)
  show ?thesis
    using assms a b
    by (auto simp add: at24_adjust_write_count_def Let_def not_less split: if_splits)
qed

lemma read_planner_unat:
  "unat (at24_adjust_read_count k m offset count) = min (unat count) (unat (mmc_mailbox_io_limit k))"
  by (auto simp add: at24_adjust_read_count_def min_def word_less_nat_alt unat_ucast_32_64)

lemma plan_small:
  assumes "plan k m d offset count = Some n"
  shows "unat n < 2 ^ 32"
proof (cases d)
  case Rd
  with assms have "unat n = min (unat count) (unat (mmc_mailbox_io_limit k))"
    by (auto simp add: plan_def read_planner_unat)
  then show ?thesis using unat_u32_less[of "mmc_mailbox_io_limit k"] by simp
next
  case Wr
  with assms have "at24_adjust_write_count m offset count = Some n"
    by (simp add: plan_def)
  then show ?thesis by (rule write_planner_small)
qed

lemma plan_le_count:
  assumes "plan k m d offset count = Some n"
    and "d = Wr \<Longrightarrow> unat offset + unat (page_size m) < 2 ^ 32"
  shows "unat n \<le> unat count"
proof (cases d)
  case Rd
  with assms(1) show ?thesis by (auto simp add: plan_def read_planner_unat)
next
  case Wr
  with assms(1) have w: "at24_adjust_write_count m offset count = Some n"
    by (simp add: plan_def)
  then have "page_size m \<noteq> 0"
    by (auto simp add: at24_adjust_write_count_def Let_def split: if_splits)
  from write_planner_unat[OF this assms(2)[OF Wr], of count] w show ?thesis by auto
qed

section \<open>One adapter call\<close>

lemma retry_loop_unfold:
  "retry_loop k d timeout buf off n log =
     (let t = jiffies_at k (length log); st = regmap_status k (Suc (length log));
          log1 = log @ [Jiffies t, Bulk d off buf n st]
      in if st = 0 then Some (n, log1)
         else if time_before t timeout
              then retry_loop k d timeout buf off n (log1 @ [Usleep_range 1000 1500])
              else Some (- word_of_int ETIMEDOUT, log1 @ [Usleep_range 1000 1500]))"
  by (subst retry_loop.simps) (simp add: jiffies_def regmap_bulk_def usleep_range_def Let_def)

lemma retry_loop_success:
  "regmap_status k (Suc (length log)) = 0 \<Longrightarrow>
   retry_loop k d timeout buf off n log =
     Some (n, log @ [Jiffies (jiffies_at k (length log)), Bulk d off buf n 0])"
  by (subst retry_loop_unfold) (simp add: Let_def)

lemma retry_loop_timeout:
  "regmap_status k (Suc (length log)) \<noteq> 0 \<Longrightarrow> \<not> time_before (jiffies_at k (length log)) timeout \<Longrightarrow>
   retry_loop k d timeout buf off n log =
     Some (- word_of_int ETIMEDOUT,
           log @ [Jiffies (jiffies_at k (length log)),
                  Bulk d off buf n (regmap_status k (Suc (length log))), Usleep_range 1000 1500])"
  by (subst retry_loop_unfold) (simp add: Let_def)

lemma retry_loop_again:
  "regmap_status k (Suc (length log)) \<noteq> 0 \<Longrightarrow> time_before (jiffies_at k (length log)) timeout \<Longrightarrow>
   retry_loop k d timeout buf off n log =
     retry_loop k d timeout buf off n
       (log @ [Jiffies (jiffies_at k (length log)),
               Bulk d off buf n (regmap_status k (Suc (length log))), Usleep_range 1000 1500])"
  by (subst retry_loop_unfold) (simp add: Let_def)

lemma retry_loop_trace_aux:
  assumes "retry_loop k d timeout buf off n log = Some y"
  shows "\<exists>es. snd y = log @ es \<and> retry_trace d buf off n timeout es (fst y)"
proof (rule retry_loop.raw_induct
    [where P = "\<lambda>k d timeout buf off n log y. \<exists>es. snd y = log @ es \<and> retry_trace d buf off n timeout es (fst y)",
     OF _ assms])
  fix loop :: "kernel \<Rightarrow> dir \<Rightarrow> u64 \<Rightarrow> bufptr \<Rightarrow> u32 \<Rightarrow> u64 \<Rightarrow> event list \<Rightarrow> (u64 \<times> event list) option"
  fix k d timeout buf off n log y
  assume IH: "\<And>k d timeout buf off n log y. loop k d timeout buf off n log = Some y \<Longrightarrow>
     \<exists>es. snd y = log @ es \<and> retry_trace d buf off n timeout es (fst y)"
  assume body: "(let (op_time, log0) = jiffies k log;
          (ret, log1) = regmap_bulk k d log0 off buf n
      in if ret = 0 then Some (n, log1)
         else let log2 = usleep_range 1000 1500 log1
              in if time_before op_time timeout
                 then loop k d timeout buf off n log2
                 else Some (- word_of_int ETIMEDOUT, log2)) = Some y"
  let ?t = "jiffies_at k (length log)"
  let ?st = "regmap_status k (Suc (length log))"
  let ?log1 = "log @ [Jiffies ?t, Bulk d off buf n ?st]"
  let ?log2 = "?log1 @ [Usleep_range 1000 1500]"
  show "\<exists>es. snd y = log @ es \<and> retry_trace d buf off n timeout es (fst y)"
  proof (cases "?st = 0")
    case True
    with body have "y = (n, ?log1)"
      by (auto simp add: jiffies_def regmap_bulk_def Let_def)
    with True show ?thesis by simp
  next
    case failed: False
    show ?thesis
    proof (cases "time_before ?t timeout")
      case True
      with failed body have "loop k d timeout buf off n ?log2 = Some y"
        by (simp add: jiffies_def regmap_bulk_def usleep_range_def Let_def)
      from IH[OF this] obtain es where "snd y = ?log2 @ es" "retry_trace d buf off n timeout es (fst y)"
        by blast
      with failed True show ?thesis by simp
    next
      case False
      with failed body have "y = (- word_of_int ETIMEDOUT, ?log2)"
        by (auto simp add: jiffies_def regmap_bulk_def usleep_range_def Let_def)
      with failed False show ?thesis by simp
    qed
  qed
qed

lemma retry_loop_trace:
  "retry_loop k d timeout buf off n log = Some (r, log') \<Longrightarrow>
     \<exists>es. log' = log @ es \<and> retry_trace d buf off n timeout es r"
  using retry_loop_trace_aux[of k d timeout buf off n log "(r, log')"] by simp

lemma ends_loop_Suc:
  "ends_loop k len timeout (Suc j) = ends_loop k (Suc (Suc (Suc len))) timeout j"
proof -
  have "len + 3 * Suc j = Suc (Suc (Suc len)) + 3 * j" by simp
  then show ?thesis by (simp only: ends_loop_def)
qed

lemma retry_loop_returns:
  "ends_loop k (length log) timeout j \<Longrightarrow> \<exists>y. retry_loop k d timeout buf off n log = Some y"
proof (induction j arbitrary: log)
  case 0
  then show ?case
    by (subst retry_loop_unfold) (auto simp add: ends_loop_def Let_def)
next
  case (Suc j)
  let ?log2 = "log @ [Jiffies (jiffies_at k (length log)),
      Bulk d off buf n (regmap_status k (Suc (length log))), Usleep_range 1000 1500]"
  from Suc.prems have "ends_loop k (length ?log2) timeout j"
    by (simp add: ends_loop_Suc)
  from Suc.IH[OF this] obtain y where "retry_loop k d timeout buf off n ?log2 = Some y" ..
  then show ?case
    by (subst retry_loop_unfold) (auto simp add: Let_def)
qed

lemma retry_trace_events:
  "retry_trace d buf reg n timeout es r \<Longrightarrow> e \<in> set es \<Longrightarrow> req_event d buf reg n e"
  by (induction d buf reg n timeout es r rule: retry_trace.induct)
     (auto split: if_splits list.splits event.splits)

lemma retry_trace_result:
  "retry_trace d buf reg n timeout es r \<Longrightarrow>
     (list_ex succeeded es \<and> r = n) \<or> (\<not> list_ex succeeded es \<and> r = - word_of_int ETIMEDOUT)"
  by (induction d buf reg n timeout es r rule: retry_trace.induct)
     (auto split: if_splits list.splits event.splits)

lemma retry_trace_chunks:
  "retry_trace d buf reg n timeout es r \<Longrightarrow>
     chunks es = (if list_ex succeeded es then (case buf of Heap a \<Rightarrow> [(reg, a, n)] | Stack_byte b \<Rightarrow> []) else [])"
  by (induction d buf reg n timeout es r rule: retry_trace.induct)
     (auto split: if_splits list.splits event.splits bufptr.splits)

lemma at24_regmap_plan:
  "at24_regmap d k m log buf off count =
     (case plan k m d off count of
        None \<Rightarrow> None
      | Some n \<Rightarrow> retry_loop k d (deadline k log) buf off n (log @ [Jiffies (jiffies_at k (length log))]))"
  by (cases d)
     (simp_all add: at24_regmap_def plan_def at24_regmap_read_def at24_regmap_write_def
        jiffies_def deadline_def Let_def split: option.splits)

lemma at24_regmap_trace:
  assumes "at24_regmap d k m log buf off count = Some (r, log')"
  shows "\<exists>n es. plan k m d off count = Some n
           \<and> log' = log @ Jiffies (jiffies_at k (length log)) # es
           \<and> retry_trace d buf off n (deadline k log) es r"
proof -
  from assms obtain n where n: "plan k m d off count = Some n"
    and loop: "retry_loop k d (deadline k log) buf off n (log @ [Jiffies (jiffies_at k (length log))]) = Some (r, log')"
    by (auto simp add: at24_regmap_plan split: option.splits)
  from retry_loop_trace[OF loop] obtain es
    where "log' = (log @ [Jiffies (jiffies_at k (length log))]) @ es"
      and "retry_trace d buf off n (deadline k log) es r" by blast
  with n show ?thesis by simp
qed

section \<open>Evaluating the concrete kernels\<close>

lemma demo_kernel_simps [simp]:
  "mmc_mailbox_io_limit (demo_kernel f) = 128"
  "at24_write_timeout (demo_kernel f) = 25"
  "msecs_to_jiffies (demo_kernel f) ms = ucast ((ms + 3) div 4)"
  "jiffies_at (demo_kernel f) n = 4 * of_nat n"
  "regmap_status (demo_kernel f) n = (if n \<in> set f then - 5 else 0)"
  "pm_status (demo_kernel f) n = 0"
  by (simp_all add: demo_kernel_def)

lemma mailbox_simps [simp]:
  "write_max mailbox = 16" "byte_len mailbox = 2048" "page_size mailbox = 16"
  by (simp_all add: mailbox_def)

lemma top_session_simps [simp]:
  "write_max top_session = 16" "byte_len top_session = 0xFFFFFFFF" "page_size top_session = 16"
  by (simp_all add: top_session_def)

lemmas retry_eval = retry_loop_success retry_loop_timeout retry_loop_again time_before_def

lemmas adapter_eval =
  at24_regmap_plan plan_def deadline_def at24_adjust_read_count_def
  at24_adjust_write_count_def roundup_def Let_def ETIMEDOUT_def retry_eval

section \<open>The chunk loop\<close>

lemma chunks_append: "chunks (xs @ ys) = chunks xs @ chunks ys"
  by (induction xs rule: chunks.induct) simp_all

lemma req_event_heap_data: "req_event d (Heap a) reg n e \<Longrightarrow> data_event e"
  by (cases e) auto

lemma data_event_no_control: "data_event e \<Longrightarrow> \<not> control_write e"
  by (cases e rule: data_event.cases) auto

lemma req_event_within:
  "req_event d (Heap buf) off n e \<Longrightarrow> unat n \<le> unat count \<Longrightarrow> within off buf count e"
  by (cases e) auto

lemma within_shift:
  assumes "within off' buf' count' e"
    and "unat off' = unat off + j" and "buf' = buf + int j" and "unat count' + j = unat count"
  shows "within off buf count e"
proof -
  have "int (unat off') = int (unat off) + int j" using assms(2) by simp
  then have "uint off' = uint off + int j" by simp
  with assms show ?thesis
    by (cases "(off', buf', count', e)" rule: within.cases) auto
qed

lemma chunk_loop_shape_aux:
  assumes run: "chunk_loop xfer buf off count log = Some y"
    and xfer: "\<And>log b o' c r log1. xfer log (Heap b) o' c = Some (r, log1) \<Longrightarrow>
                 \<exists>es. log1 = log @ es \<and> (\<forall>e\<in>set es. data_event e)"
  shows "\<exists>es. snd y = log @ es @ exit_tail (fst y) \<and> (\<forall>e\<in>set es. data_event e)
           \<and> (\<forall>r. fst y = Returned r \<longrightarrow> r <s 0)"
proof -
  let ?Q = "\<lambda>log y. \<exists>es. snd y = log @ es @ exit_tail (fst y) \<and> (\<forall>e\<in>set es. data_event e)
           \<and> (\<forall>r. fst y = Returned r \<longrightarrow> r <s 0)"
  have "xfer = xfer \<longrightarrow> ?Q log y"
  proof (rule chunk_loop.raw_induct
      [where P = "\<lambda>x buf off count log y. x = xfer \<longrightarrow> ?Q log y", OF _ run])
    fix loop :: "(event list \<Rightarrow> bufptr \<Rightarrow> u32 \<Rightarrow> u64 \<Rightarrow> (u64 \<times> event list) option)
        \<Rightarrow> int \<Rightarrow> u32 \<Rightarrow> u64 \<Rightarrow> event list \<Rightarrow> (loop_exit \<times> event list) option"
    fix x buf off count log y
    assume IH: "\<And>x buf off count log y. loop x buf off count log = Some y \<Longrightarrow> x = xfer \<longrightarrow> ?Q log y"
    assume body: "(if count = 0 then Some (Completed, log)
      else case x log (Heap buf) off count of
             None \<Rightarrow> None
           | Some (r, log1) \<Rightarrow>
               let ret = (ucast r :: u32)
               in if ret <s 0 then Some (Returned ret, pm_runtime_put (mutex_unlock log1))
                  else loop x (buf + sint ret) (off + ret) (count - scast ret) log1) = Some y"
    show "x = xfer \<longrightarrow> ?Q log y"
    proof
      assume x: "x = xfer"
      show "?Q log y"
      proof (cases "count = 0")
        case True
        with body have "y = (Completed, log)" by auto
        then show ?thesis by simp
      next
        case False
        with body obtain r log1 where r: "xfer log (Heap buf) off count = Some (r, log1)"
          by (auto simp add: x split: option.splits)
        from xfer[OF r] obtain es1 where es1: "log1 = log @ es1" "\<forall>e\<in>set es1. data_event e"
          by blast
        show ?thesis
        proof (cases "(ucast r :: u32) <s 0")
          case True
          with body False r have "y = (Returned (ucast r), log1 @ [Mutex_unlock, Pm_runtime_put])"
            by (auto simp add: x Let_def pm_runtime_put_def mutex_unlock_def)
          with es1 True show ?thesis by simp
        next
          case nonneg: False
          with body False r
          have "loop xfer (buf + sint (ucast r :: u32)) (off + ucast r) (count - scast (ucast r :: u32)) log1 = Some y"
            by (simp add: x Let_def)
          from IH[OF this] obtain es2
            where "snd y = log1 @ es2 @ exit_tail (fst y)" "\<forall>e\<in>set es2. data_event e"
              "\<forall>r. fst y = Returned r \<longrightarrow> r <s 0" by blast
          with es1 show ?thesis
            by (intro exI[of _ "es1 @ es2"]) auto
        qed
      qed
    qed
  qed
  then show ?thesis by simp
qed

lemma at24_regmap_heap_events:
  assumes "at24_regmap d k m log (Heap b) o' c = Some (r, log1)"
  shows "\<exists>es. log1 = log @ es \<and> (\<forall>e\<in>set es. data_event e)"
proof -
  from at24_regmap_trace[OF assms] obtain n es
    where log1: "log1 = log @ Jiffies (jiffies_at k (length log)) # es"
      and tr: "retry_trace d (Heap b) o' n (deadline k log) es r" by blast
  have "\<forall>e\<in>set es. data_event e"
    using retry_trace_events[OF tr] req_event_heap_data by blast
  with log1 show ?thesis
    by (intro exI[of _ "Jiffies (jiffies_at k (length log)) # es"]) simp
qed

lemma chunk_loop_shape:
  assumes "chunk_loop (at24_regmap d k m) buf off count log = Some (x, log')"
  shows "\<exists>es. log' = log @ es @ exit_tail x \<and> (\<forall>e\<in>set es. data_event e)
           \<and> (\<forall>r. x = Returned r \<longrightarrow> r <s 0)"
  using chunk_loop_shape_aux[OF assms at24_regmap_heap_events] by simp

lemma advance_sum:
  "advance s cs = Some s' \<Longrightarrow> fst s' + snd (snd s') = fst s + snd (snd s)"
  by (induction s cs rule: advance.induct) (auto split: if_splits)

lemma chunk_loop_range_aux:
  assumes run: "chunk_loop (at24_regmap d k m) buf off count log = Some y"
    and rng: "unat off + unat count \<le> E" and top: "E < 2 ^ 32"
    and wr: "d = Wr \<Longrightarrow> E + unat (page_size m) \<le> 2 ^ 32"
  shows "\<exists>es. snd y = log @ es @ exit_tail (fst y) \<and> (\<forall>e\<in>set es. within off buf count e)
           \<and> (\<exists>s. advance (unat off, buf, unat count) (chunks es) = Some s
                 \<and> (fst y = Completed \<longrightarrow> snd (snd s) = 0))"
proof -
  let ?Q = "\<lambda>buf off count log y. \<exists>es. snd y = log @ es @ exit_tail (fst y)
           \<and> (\<forall>e\<in>set es. within off buf count e)
           \<and> (\<exists>s. advance (unat off, buf, unat count) (chunks es) = Some s
                 \<and> (fst y = Completed \<longrightarrow> snd (snd s) = 0))"
  let ?P = "\<lambda>x buf off count log y.
      x = at24_regmap d k m \<longrightarrow> unat off + unat count \<le> E \<longrightarrow> ?Q buf off count log y"
  have "?P (at24_regmap d k m) buf off count log y"
  proof (rule chunk_loop.raw_induct[where P = ?P, OF _ run])
    fix loop :: "(event list \<Rightarrow> bufptr \<Rightarrow> u32 \<Rightarrow> u64 \<Rightarrow> (u64 \<times> event list) option)
        \<Rightarrow> int \<Rightarrow> u32 \<Rightarrow> u64 \<Rightarrow> event list \<Rightarrow> (loop_exit \<times> event list) option"
    fix x buf off count log y
    assume IH: "\<And>x buf off count log y. loop x buf off count log = Some y \<Longrightarrow> ?P x buf off count log y"
    assume body: "(if count = 0 then Some (Completed, log)
      else case x log (Heap buf) off count of
             None \<Rightarrow> None
           | Some (r, log1) \<Rightarrow>
               let ret = (ucast r :: u32)
               in if ret <s 0 then Some (Returned ret, pm_runtime_put (mutex_unlock log1))
                  else loop x (buf + sint ret) (off + ret) (count - scast ret) log1) = Some y"
    show "?P x buf off count log y"
    proof (intro impI)
      assume x: "x = at24_regmap d k m" and inv: "unat off + unat count \<le> E"
      show "?Q buf off count log y"
      proof (cases "count = 0")
        case True
        with body have "y = (Completed, log)" by auto
        with True show ?thesis by simp
      next
        case False
        then have cpos: "0 < unat count" by (simp add: unat_gt_0)
        from False body obtain r log1 where r: "at24_regmap d k m log (Heap buf) off count = Some (r, log1)"
          by (auto simp add: x split: option.splits)
        let ?J = "Jiffies (jiffies_at k (length log))"
        from at24_regmap_trace[OF r] obtain n es1
          where n: "plan k m d off count = Some n"
            and log1: "log1 = log @ ?J # es1"
            and tr: "retry_trace d (Heap buf) off n (deadline k log) es1 r" by blast
        have nsmall: "unat n < 2 ^ 32" using plan_small[OF n] .
        have "d = Wr \<Longrightarrow> unat off + unat (page_size m) < 2 ^ 32"
          using wr inv cpos by linarith
        from plan_le_count[OF n this] have nle: "unat n \<le> unat count" .
        have w1: "\<forall>e\<in>set (?J # es1). within off buf count e"
          using retry_trace_events[OF tr] req_event_within[OF _ nle] by (simp, blast)
        have ch1: "chunks (?J # es1) = (if list_ex succeeded es1 then [(off, buf, n)] else [])"
          using retry_trace_chunks[OF tr] by simp
        have res: "(list_ex succeeded es1 \<and> r = n) \<or> (\<not> list_ex succeeded es1 \<and> r = - word_of_int ETIMEDOUT)"
          using retry_trace_result[OF tr] .
        show ?thesis
        proof (cases "(ucast r :: u32) <s 0")
          case True
          with body False r have y: "y = (Returned (ucast r), (log @ ?J # es1) @ [Mutex_unlock, Pm_runtime_put])"
            by (auto simp add: x Let_def pm_runtime_put_def mutex_unlock_def log1)
          have "\<exists>s. advance (unat off, buf, unat count) (chunks (?J # es1)) = Some s"
            using nle by (simp only: ch1) simp
          with y w1 show ?thesis
            by (intro exI[of _ "?J # es1"]) auto
        next
          case nonneg: False
          then have "r \<noteq> - word_of_int ETIMEDOUT" using etimedout_negative by auto
          with res have succ: "list_ex succeeded es1" and rn: "r = n" by auto
          let ?ret = "ucast n :: u32"
          have uret: "unat ?ret = unat n" using nsmall by (rule unat_ucast_64_32)
          have nn: "\<not> ?ret <s 0" using nonneg rn by simp
          have sret: "sint ?ret = int (unat n)" using sint_u32_nonneg(2)[OF nn] uret by simp
          have cret: "(scast ?ret :: u64) = n"
            using scast_u32_nonneg[OF nn] ucast_ucast_64_32_64[OF nsmall] by simp
          have "unat off + unat ?ret < 2 ^ 32" using inv nle top uret by linarith
          then have uoff: "unat (off + ?ret) = unat off + unat n"
            using unat_add_lem[of off ?ret] uret by simp
          have "n \<le> count" using nle by (simp add: word_le_nat_alt)
          then have ucnt: "unat (count - n) = unat count - unat n" by (rule unat_sub)
          from body False r nonneg
          have "loop (at24_regmap d k m) (buf + int (unat n)) (off + ?ret) (count - n) log1 = Some y"
            by (simp add: x Let_def rn sret cret)
          from IH[OF this] uoff ucnt nle inv
          have "?Q (buf + int (unat n)) (off + ?ret) (count - n) log1 y" by simp
          then obtain es2 s
            where y2: "snd y = log1 @ es2 @ exit_tail (fst y)"
              and w2: "\<forall>e\<in>set es2. within (off + ?ret) (buf + int (unat n)) (count - n) e"
              and a2: "advance (unat (off + ?ret), buf + int (unat n), unat (count - n)) (chunks es2) = Some s"
              and c2: "fst y = Completed \<longrightarrow> snd (snd s) = 0"
            by blast
          have w2': "\<forall>e\<in>set es2. within off buf count e"
          proof
            fix e assume "e \<in> set es2"
            with w2 have w: "within (off + ?ret) (buf + int (unat n)) (count - n) e" by blast
            have "unat (count - n) + unat n = unat count" using ucnt nle by simp
            from within_shift[OF w uoff refl this] show "within off buf count e" .
          qed
          have "chunks ((?J # es1) @ es2) = (off, buf, n) # chunks es2"
            using ch1 succ by (simp only: chunks_append) simp
          then have "advance (unat off, buf, unat count) (chunks ((?J # es1) @ es2)) = Some s"
            using a2 nle by (simp add: uoff ucnt)
          with y2 w1 w2' c2 log1 show ?thesis
            by (intro exI[of _ "(?J # es1) @ es2"]) auto
        qed
      qed
    qed
  qed
  with rng show ?thesis by simp
qed

lemma chunk_loop_range:
  assumes "chunk_loop (at24_regmap d k m) buf off count log = Some (x, log')"
    and "unat off + unat count \<le> E" and "E < 2 ^ 32"
    and "d = Wr \<Longrightarrow> E + unat (page_size m) \<le> 2 ^ 32"
  shows "\<exists>es rest. log' = log @ es @ exit_tail x \<and> (\<forall>e\<in>set es. within off buf count e)
           \<and> (\<exists>off' cur'. advance (unat off, buf, unat count) (chunks es) = Some (off', cur', rest))
           \<and> (x = Completed \<longrightarrow> rest = 0)"
proof -
  from chunk_loop_range_aux[OF assms] obtain es s
    where "log' = log @ es @ exit_tail x" "\<forall>e\<in>set es. within off buf count e"
      "advance (unat off, buf, unat count) (chunks es) = Some s"
      "x = Completed \<longrightarrow> snd (snd s) = 0" by auto
  then show ?thesis
    by (cases s) auto
qed

section \<open>The entry points\<close>

lemma at24_read_body:
  "at24_read k m log off val count =
     (if count = 0 then Some (0, log) else at24_body Rd k m log off val count)"
  unfolding at24_read_def at24_body_def at24_regmap_def dir.case by simp

lemma at24_write_body:
  "at24_write k m log off val count =
     (if count = 0 then Some (- word_of_int EINVAL, log) else at24_body Wr k m log off val count)"
  unfolding at24_write_def at24_body_def at24_regmap_def dir.case by simp

lemma control_write_trace:
  assumes "at24_regmap_write k m log (Stack_byte b) MB_LOCK_OFFS 1 = Some (r, log1)"
  shows "\<exists>tr. log1 = log @ tr \<and> control_trace k m b tr"
proof -
  from assms have "at24_regmap Wr k m log (Stack_byte b) MB_LOCK_OFFS 1 = Some (r, log1)"
    by (simp add: at24_regmap_def)
  from at24_regmap_trace[OF this] obtain n es
    where n: "at24_adjust_write_count m MB_LOCK_OFFS 1 = Some n"
      and log1: "log1 = log @ Jiffies (jiffies_at k (length log)) # es"
      and tr: "retry_trace Wr (Stack_byte b) MB_LOCK_OFFS n (deadline k log) es r"
    by (auto simp add: plan_def)
  from retry_trace_result[OF tr] have "r = n \<or> r = - word_of_int ETIMEDOUT" by blast
  with n tr have "control_trace k m b (Jiffies (jiffies_at k (length log)) # es)"
    by (auto simp add: control_trace_def deadline_def)
  with log1 show ?thesis by blast
qed

lemma lock_if_multiple_trace:
  assumes "lock_if_multiple k m log count = Some (locked, log2)"
  shows "locked = (1 < count)
       \<and> (\<exists>sets. log2 = log @ sets \<and> (if 1 < count then control_trace k m MB_LOCK_FLAG sets else sets = []))"
proof (cases "count \<le> 1")
  case True
  with assms show ?thesis by (auto simp add: lock_if_multiple_def)
next
  case False
  with assms obtain r where "at24_regmap_write k m log (Stack_byte MB_LOCK_FLAG) MB_LOCK_OFFS 1 = Some (r, log2)"
    and "locked"
    by (auto simp add: lock_if_multiple_def split: option.splits)
  with control_write_trace[OF this(1)] False show ?thesis by auto
qed

lemma unlock_if_locked_trace:
  assumes "unlock_if_locked k m log locked = Some log4"
  shows "\<exists>clears. log4 = log @ clears \<and> (if locked then control_trace k m 0 clears else clears = [])"
proof (cases locked)
  case False
  with assms show ?thesis by (auto simp add: unlock_if_locked_def)
next
  case True
  with assms obtain r where "at24_regmap_write k m log (Stack_byte 0) MB_LOCK_OFFS 1 = Some (r, log4)"
    by (auto simp add: unlock_if_locked_def split: option.splits)
  with control_write_trace[OF this] True show ?thesis by auto
qed

lemma at24_body_rejects:
  "ucast off + count > (ucast (byte_len m) :: u64) \<Longrightarrow>
     at24_body d k m log off val count = Some (- word_of_int EINVAL, log)"
  by (simp add: at24_body_def)

lemma at24_body_no_resume:
  "\<not> ucast off + count > (ucast (byte_len m) :: u64) \<Longrightarrow> pm_status k (length log) <s 0 \<Longrightarrow>
     at24_body d k m log off val count =
       Some (pm_status k (length log),
             log @ [Pm_runtime_get_sync (pm_status k (length log)), Pm_runtime_put_noidle])"
  by (simp add: at24_body_def pm_runtime_get_sync_def pm_runtime_put_noidle_def Let_def)

lemma at24_body_trace:
  assumes run: "at24_body d k m log off val count = Some (ret, log')"
    and ok: "\<not> ucast off + count > (ucast (byte_len m) :: u64)"
    and pm: "\<not> pm_status k (length log) <s 0"
  shows "\<exists>sets data clears x.
      log' = log @ [Pm_runtime_get_sync (pm_status k (length log)), Mutex_lock]
                 @ sets @ data @ clears @ [Mutex_unlock, Pm_runtime_put]
    \<and> (if 1 < count then control_trace k m MB_LOCK_FLAG sets else sets = [])
    \<and> chunk_loop (at24_regmap d k m) val off count
         (log @ [Pm_runtime_get_sync (pm_status k (length log)), Mutex_lock] @ sets)
        = Some (x, (log @ [Pm_runtime_get_sync (pm_status k (length log)), Mutex_lock] @ sets)
                     @ data @ exit_tail x)
    \<and> (\<forall>e\<in>set data. data_event e)
    \<and> (case x of
          Completed \<Rightarrow> ret = 0 \<and> (if 1 < count then control_trace k m 0 clears else clears = [])
        | Returned r \<Rightarrow> ret = r \<and> r <s 0 \<and> clears = [])"
proof -
  let ?pre = "[Pm_runtime_get_sync (pm_status k (length log)), Mutex_lock]"
  from run ok pm obtain locked log2 x log3
    where lk: "lock_if_multiple k m (log @ ?pre) count = Some (locked, log2)"
      and lp: "chunk_loop (at24_regmap d k m) val off count log2 = Some (x, log3)"
      and fin: "(case x of
                   Returned r \<Rightarrow> Some (r, log3)
                 | Completed \<Rightarrow>
                     (case unlock_if_locked k m log3 locked of
                        None \<Rightarrow> None
                      | Some log4 \<Rightarrow> Some (0, log4 @ [Mutex_unlock, Pm_runtime_put]))) = Some (ret, log')"
    by (auto simp add: at24_body_def pm_runtime_get_sync_def mutex_lock_def mutex_unlock_def
        pm_runtime_put_def Let_def split: option.splits loop_exit.splits)
  from lock_if_multiple_trace[OF lk] obtain sets
    where locked: "locked = (1 < count)" and log2: "log2 = (log @ ?pre) @ sets"
      and sets: "if 1 < count then control_trace k m MB_LOCK_FLAG sets else sets = []"
    by blast
  from chunk_loop_shape[OF lp] obtain data
    where log3: "log3 = log2 @ data @ exit_tail x" and data: "\<forall>e\<in>set data. data_event e"
      and neg: "\<forall>r. x = Returned r \<longrightarrow> r <s 0"
    by blast
  show ?thesis
  proof (cases x)
    case (Returned r)
    with fin have "ret = r" "log' = log3" by auto
    with Returned log3 log2 sets data neg lp show ?thesis
      by (intro exI[of _ sets] exI[of _ data] exI[of _ "[]"] exI[of _ x]) auto
  next
    case Completed
    with fin obtain log4 where u: "unlock_if_locked k m log3 locked = Some log4"
      and r: "ret = 0" "log' = log4 @ [Mutex_unlock, Pm_runtime_put]"
      by (auto split: option.splits)
    from unlock_if_locked_trace[OF u] locked obtain clears
      where "log4 = log3 @ clears" "if 1 < count then control_trace k m 0 clears else clears = []"
      by auto
    with Completed r log3 log2 sets data lp show ?thesis
      by (intro exI[of _ sets] exI[of _ data] exI[of _ clears] exI[of _ x]) auto
  qed
qed

section \<open>Evaluating the entry points\<close>

lemma chunk_loop_done: "chunk_loop xfer buf off 0 log = Some (Completed, log)"
  by (subst chunk_loop.simps) simp

lemma chunk_loop_step:
  "count \<noteq> 0 \<Longrightarrow>
   chunk_loop xfer buf off count log =
     (case xfer log (Heap buf) off count of
        None \<Rightarrow> None
      | Some (r, log1) \<Rightarrow>
          let ret = (ucast r :: u32)
          in if ret <s 0 then Some (Returned ret, pm_runtime_put (mutex_unlock log1))
             else chunk_loop xfer (buf + sint ret) (off + ret) (count - scast ret) log1)"
  by (subst chunk_loop.simps) simp

lemma at24_regmap_write_dir: "at24_regmap_write k m = at24_regmap Wr k m"
  by (simp add: at24_regmap_def)

lemmas entry_eval =
  at24_call_def at24_read_body at24_write_body at24_body_def pm_runtime_get_sync_def
  pm_runtime_put_noidle_def pm_runtime_put_def mutex_lock_def mutex_unlock_def
  lock_if_multiple_def unlock_if_locked_def at24_regmap_write_dir
  chunk_loop_done chunk_loop_step word_sless_alt EINVAL_def
  MB_LOCK_OFFS_def MB_LOCK_FLAG_def adapter_eval

section \<open>Control writes and bounds, in numbers\<close>

lemma stack_events_inert:
  "\<forall>e\<in>set tr. req_event d (Stack_byte b) reg n e \<Longrightarrow>
     chunks tr = [] \<and> (\<forall>e\<in>set tr. within off val count e)"
  by (induction tr rule: chunks.induct) auto

lemma control_trace_inert:
  assumes "control_trace k m b tr"
  shows "chunks tr = [] \<and> (\<forall>e\<in>set tr. within off val count e)"
proof -
  from assms obtain n r where a: "adapter_trace k Wr (Stack_byte b) MB_LOCK_OFFS n tr r"
    by (auto simp add: control_trace_def split: option.splits)
  then obtain now es where tr: "tr = Jiffies now # es"
    and rt: "retry_trace Wr (Stack_byte b) MB_LOCK_OFFS n (now + msecs_to_jiffies k (at24_write_timeout k)) es r"
    by (cases "(k, Wr, Stack_byte b, MB_LOCK_OFFS, n, tr, r)" rule: adapter_trace.cases) auto
  have "\<forall>e\<in>set tr. req_event Wr (Stack_byte b) MB_LOCK_OFFS n e"
    using retry_trace_events[OF rt] tr by auto
  then show ?thesis by (rule stack_events_inert)
qed

lemma bounds_check_nat:
  assumes "unat off + unat count < 2 ^ 64"
  shows "(ucast (off :: u32) + count > (ucast (byte_len m) :: u64))
           \<longleftrightarrow> unat (byte_len m) < unat off + unat count"
proof -
  have "unat (ucast off :: u64) + unat count < 2 ^ 64"
    using assms by (simp only: unat_ucast_32_64)
  then have "unat ((ucast off :: u64) + count) = unat off + unat count"
    using unat_add_lem[of "ucast off :: u64" count] by (simp only: unat_ucast_32_64) simp
  then show ?thesis
    by (simp only: word_less_nat_alt unat_ucast_32_64)
qed

lemma lock_write_is_one_byte:
  assumes "page_size m \<noteq> 0" and "write_max m \<noteq> 0"
  shows "at24_adjust_write_count m MB_LOCK_OFFS 1 = Some 1"
proof -
  let ?p = "unat (page_size m)"
  have ppos: "0 < ?p" using assms(1) by (simp add: unat_gt_0)
  have wpos: "0 < unat (write_max m)" using assms(2) by (simp add: unat_gt_0)
  have o: "unat MB_LOCK_OFFS = 2047" by (simp add: MB_LOCK_OFFS_def)
  have "unat MB_LOCK_OFFS + ?p < 2 ^ 32"
    using unat_u16_less[of "page_size m"] by (simp only: o) simp
  from write_planner_unat[OF assms(1) this, of 1] obtain L
    where L: "at24_adjust_write_count m MB_LOCK_OFFS 1 = Some L"
      and uL: "unat L = min (min (unat (1 :: u64)) (unat (write_max m)))
                          ((2047 div ?p + 1) * ?p - 2047)"
    by (auto simp only: o)
  have "2047 < (2047 div ?p + 1) * ?p" using next_page_bounds(1)[OF ppos] .
  with uL wpos have "unat L = 1" by simp
  then have "L = 1" by (metis unat_1 word_unat_eq_iff)
  with L show ?thesis by simp
qed

section \<open>Calls that return\<close>

lemma at24_regmap_returns:
  assumes "plan k m d off count = Some n"
    and "\<exists>j. ends_loop k (Suc (length log)) (deadline k log) j"
  shows "\<exists>r log1. at24_regmap d k m log buf off count = Some (r, log1)"
proof -
  from assms(2) obtain j
    where "ends_loop k (length (log @ [Jiffies (jiffies_at k (length log))])) (deadline k log) j"
    by auto
  from retry_loop_returns[OF this] assms(1) show ?thesis
    by (simp add: at24_regmap_plan)
qed

lemma plan_defined:
  assumes "d = Wr \<Longrightarrow> page_size m \<noteq> 0"
  shows "\<exists>n. plan k m d off count = Some n"
  using assms by (cases d) (simp_all add: plan_def at24_adjust_write_count_def Let_def)

lemma plan_positive:
  assumes n: "plan k m d off count = Some n" and c: "count \<noteq> 0"
    and rd: "d = Rd \<Longrightarrow> mmc_mailbox_io_limit k \<noteq> 0"
    and wr: "d = Wr \<Longrightarrow> write_max m \<noteq> 0 \<and> unat off + unat (page_size m) < 2 ^ 32"
  shows "0 < unat n"
proof (cases d)
  case Rd
  with n have "unat n = min (unat count) (unat (mmc_mailbox_io_limit k))"
    by (auto simp add: plan_def read_planner_unat)
  with c rd[OF Rd] show ?thesis by (simp add: unat_gt_0)
next
  case Wr
  with n have w: "at24_adjust_write_count m off count = Some n"
    by (simp add: plan_def)
  then have ps: "page_size m \<noteq> 0"
    by (auto simp add: at24_adjust_write_count_def Let_def split: if_splits)
  then have ppos: "0 < unat (page_size m)" by (simp add: unat_gt_0)
  from write_planner_unat[OF ps conjunct2[OF wr[OF Wr]], of count] w
  have "unat n = min (min (unat count) (unat (write_max m)))
      ((unat off div unat (page_size m) + 1) * unat (page_size m) - unat off)"
    by auto
  moreover have "unat off < (unat off div unat (page_size m) + 1) * unat (page_size m)"
    using next_page_bounds(1)[OF ppos] .
  ultimately show ?thesis
    using c wr[OF Wr] by (simp add: unat_gt_0)
qed

lemma chunk_loop_returns:
  assumes resp: "\<And>l. \<exists>j. ends_loop k (Suc (length l)) (deadline k l) j"
    and ps: "d = Wr \<Longrightarrow> page_size m \<noteq> 0"
    and rd: "d = Rd \<Longrightarrow> mmc_mailbox_io_limit k \<noteq> 0"
    and wm: "d = Wr \<Longrightarrow> write_max m \<noteq> 0"
    and top: "E < 2 ^ 32"
    and wr: "d = Wr \<Longrightarrow> E + unat (page_size m) \<le> 2 ^ 32"
  shows "unat off + unat count \<le> E \<Longrightarrow>
           \<exists>x log'. chunk_loop (at24_regmap d k m) buf off count log = Some (x, log')"
proof (induction "unat count" arbitrary: buf off count log rule: less_induct)
  case less
  show ?case
  proof (cases "count = 0")
    case True
    then show ?thesis by (simp add: chunk_loop_done)
  next
    case False
    then have cpos: "0 < unat count" by (simp add: unat_gt_0)
    from plan_defined[OF ps] obtain n where n: "plan k m d off count = Some n" by blast
    from at24_regmap_returns[OF n resp] obtain r log1
      where r: "at24_regmap d k m log (Heap buf) off count = Some (r, log1)" by blast
    show ?thesis
    proof (cases "(ucast r :: u32) <s 0")
      case True
      with False r show ?thesis by (simp add: chunk_loop_step Let_def)
    next
      case nonneg: False
      from at24_regmap_trace[OF r] n obtain es
        where tr: "retry_trace d (Heap buf) off n (deadline k log) es r" by auto
      have "r \<noteq> - word_of_int ETIMEDOUT" using nonneg etimedout_negative by auto
      with retry_trace_result[OF tr] have rn: "r = n" by auto
      have nsmall: "unat n < 2 ^ 32" using plan_small[OF n] .
      have nowrap: "d = Wr \<Longrightarrow> unat off + unat (page_size m) < 2 ^ 32"
        using wr less.prems cpos by linarith
      from plan_le_count[OF n this] have nle: "unat n \<le> unat count" .
      have npos: "0 < unat n"
        using plan_positive[OF n False rd] wm nowrap by blast
      let ?ret = "ucast n :: u32"
      have uret: "unat ?ret = unat n" using nsmall by (rule unat_ucast_64_32)
      have nn: "\<not> ?ret <s 0" using nonneg rn by simp
      have cret: "(scast ?ret :: u64) = n"
        using scast_u32_nonneg[OF nn] ucast_ucast_64_32_64[OF nsmall] by simp
      have "unat off + unat ?ret < 2 ^ 32" using less.prems nle top uret by linarith
      then have uoff: "unat (off + ?ret) = unat off + unat n"
        using unat_add_lem[of off ?ret] uret by simp
      have "n \<le> count" using nle by (simp add: word_le_nat_alt)
      then have ucnt: "unat (count - n) = unat count - unat n" by (rule unat_sub)
      have smaller: "unat (count - n) < unat count" using ucnt npos nle by linarith
      have inv: "unat (off + ?ret) + unat (count - n) \<le> E"
        using uoff ucnt nle less.prems by linarith
      from less.hyps[OF smaller inv] obtain x log'
        where "chunk_loop (at24_regmap d k m) (buf + sint ?ret) (off + ?ret) (count - n) log1 = Some (x, log')"
        by blast
      with False r nonneg rn cret show ?thesis
        by (simp add: chunk_loop_step Let_def)
    qed
  qed
qed

lemma control_write_returns:
  assumes resp: "\<And>l. \<exists>j. ends_loop k (Suc (length l)) (deadline k l) j"
    and ps: "page_size m \<noteq> 0"
  shows "\<exists>r log1. at24_regmap_write k m log (Stack_byte b) MB_LOCK_OFFS 1 = Some (r, log1)"
proof -
  from plan_defined[of Wr m k MB_LOCK_OFFS 1] ps obtain n
    where "plan k m Wr MB_LOCK_OFFS 1 = Some n" by blast
  from at24_regmap_returns[OF this resp] show ?thesis
    by (simp add: at24_regmap_write_dir)
qed

lemma at24_body_returns:
  assumes resp: "\<And>l. \<exists>j. ends_loop k (Suc (length l)) (deadline k l) j"
    and ps: "page_size m \<noteq> 0"
    and rng: "unat off + unat count \<le> unat (byte_len m)"
    and rd: "d = Rd \<Longrightarrow> mmc_mailbox_io_limit k \<noteq> 0"
    and wr: "d = Wr \<Longrightarrow> write_max m \<noteq> 0 \<and> unat (byte_len m) + unat (page_size m) \<le> 2 ^ 32"
  shows "\<exists>ret log'. at24_body d k m log off val count = Some (ret, log')"
proof -
  let ?st = "pm_status k (length log)"
  have top: "unat (byte_len m) < 2 ^ 32" by (rule unat_u32_less)
  then have "unat off + unat count < 2 ^ 64" using rng by simp
  from bounds_check_nat[OF this, of m] rng
  have inside: "\<not> ucast off + count > (ucast (byte_len m) :: u64)" by simp
  show ?thesis
  proof (cases "?st <s 0")
    case True
    with inside show ?thesis by (simp add: at24_body_no_resume)
  next
    case resumed: False
    let ?log1 = "log @ [Pm_runtime_get_sync ?st, Mutex_lock]"
    have "\<exists>locked log2. lock_if_multiple k m ?log1 count = Some (locked, log2)"
      using control_write_returns[OF resp ps, of ?log1 MB_LOCK_FLAG]
      by (auto simp add: lock_if_multiple_def)
    then obtain locked log2 where lk: "lock_if_multiple k m ?log1 count = Some (locked, log2)"
      by blast
    have "\<exists>x log3. chunk_loop (at24_regmap d k m) val off count log2 = Some (x, log3)"
    proof (rule chunk_loop_returns[where E = "unat (byte_len m)"])
      show "\<exists>j. ends_loop k (Suc (length l)) (deadline k l) j" for l by (rule resp)
      show "page_size m \<noteq> 0" by (rule ps)
      show "mmc_mailbox_io_limit k \<noteq> 0" if "d = Rd" using rd that .
      show "write_max m \<noteq> 0" if "d = Wr" using wr that by blast
      show "unat (byte_len m) < 2 ^ 32" by (rule top)
      show "unat (byte_len m) + unat (page_size m) \<le> 2 ^ 32" if "d = Wr" using wr that by blast
      show "unat off + unat count \<le> unat (byte_len m)" by (rule rng)
    qed
    then obtain x log3
      where lp: "chunk_loop (at24_regmap d k m) val off count log2 = Some (x, log3)"
      by blast
    have "\<exists>log4. unlock_if_locked k m log3 locked = Some log4"
      using control_write_returns[OF resp ps, of log3 0]
      by (auto simp add: unlock_if_locked_def)
    then obtain log4 where ul: "unlock_if_locked k m log3 locked = Some log4" by blast
    from inside resumed lk lp ul show ?thesis
      by (cases x)
         (simp_all add: at24_body_def pm_runtime_get_sync_def mutex_lock_def Let_def)
  qed
qed

lemma at24_call_returns:
  assumes resp: "\<And>l. \<exists>j. ends_loop k (Suc (length l)) (deadline k l) j"
    and ps: "page_size m \<noteq> 0"
    and rng: "unat off + unat count \<le> unat (byte_len m)"
    and rd: "d = Rd \<Longrightarrow> mmc_mailbox_io_limit k \<noteq> 0"
    and wr: "d = Wr \<Longrightarrow> write_max m \<noteq> 0 \<and> unat (byte_len m) + unat (page_size m) \<le> 2 ^ 32"
  shows "\<exists>ret log'. at24_call d k m log off val count = Some (ret, log')"
proof -
  have "\<exists>ret log'. at24_body d k m log off val count = Some (ret, log')"
    using resp ps rng rd wr by (rule at24_body_returns)
  then show ?thesis
    by (cases d) (auto simp add: at24_call_def at24_read_body at24_write_body)
qed

section \<open>Chunk planning\<close>

text \<open>
  C7. For every offset and count the read-chunk planner returns the smaller of
  the requested count and the module-wide I/O limit; the offset and the session
  play no part in the result.
\<close>

theorem read_planner_is_min:
  "unat (at24_adjust_read_count k mmc_mailbox offset count) = min (unat count) (unat (mmc_mailbox_io_limit k))
   \<and> at24_adjust_read_count k mmc_mailbox offset count = at24_adjust_read_count k mmc_mailbox' offset' count"
  by (auto simp add: at24_adjust_read_count_def min_def word_less_nat_alt unat_ucast_32_64)

text \<open>
  C3, as stated: for every offset, every count > 0, page size > 0 and maximal
  chunk > 0 the write-chunk planner returns a length \<open>L\<close> with
  \<open>0 < L \<le> round_up (offset + 1) page_size - offset\<close> and
  \<open>L \<le> min count max_chunk\<close>. This fails where the 32-bit \<^verbatim>\<open>roundup\<close> wraps
  around: two bytes below \<open>2 ^ 32\<close>, with pages of 16 bytes, the planner turns
  a request for one byte into a chunk of two.
\<close>

theorem write_planner_wraps_counterexample:
  "at24_adjust_write_count top_session 0xFFFFFFFE 1 = Some 2
   \<and> \<not> unat (2 :: u64) \<le> min (unat (1 :: u64)) (unat (write_max top_session))"
  by (simp add: adapter_eval)

text \<open>
  C3, amended: the same bounds, for every offset with
  \<open>offset + page_size < 2 ^ 32\<close>, where the 32-bit rounding is exact. The
  planner then returns a length \<open>L\<close> with \<open>0 < L\<close>,
  \<open>L \<le> round_up (offset + 1) page_size - offset\<close> and \<open>L \<le> min count max_chunk\<close>;
  the first and the last byte of the chunk lie in the same page.
\<close>

theorem write_planner_within_page:
  assumes "count \<noteq> 0" and "page_size m \<noteq> 0" and "write_max m \<noteq> 0"
    and "unat offset + unat (page_size m) < 2 ^ 32"
  shows "\<exists>L. at24_adjust_write_count m offset count = Some L
           \<and> 0 < unat L
           \<and> unat L \<le> round_up (unat offset + 1) (unat (page_size m)) - unat offset
           \<and> unat L \<le> min (unat count) (unat (write_max m))
           \<and> (unat offset + unat L - 1) div unat (page_size m) = unat offset div unat (page_size m)"
proof -
  let ?p = "unat (page_size m)"
  let ?o = "unat offset"
  let ?N = "(?o div ?p + 1) * ?p"
  have ppos: "0 < ?p" using assms(2) by (simp add: unat_gt_0)
  have cpos: "0 < unat count" "0 < unat (write_max m)"
    using assms(1,3) by (simp_all add: unat_gt_0)
  from write_planner_unat[OF assms(2,4), of count] obtain L
    where L: "at24_adjust_write_count m offset count = Some L"
      and uL: "unat L = min (min (unat count) (unat (write_max m))) (?N - ?o)" by blast
  have Nlo: "?o < ?N" using next_page_bounds(1)[OF ppos] .
  have ru: "round_up (?o + 1) ?p = ?N"
    by (simp only: round_up_def next_page_nat[OF ppos])
  have pos: "0 < unat L" using uL cpos Nlo by simp
  have le: "unat L \<le> ?N - ?o" using uL by simp
  have "?o div ?p * ?p \<le> ?o + unat L - 1" using pos
    by (metis Nat.add_diff_assoc One_nat_def Suc_leI div_times_less_eq_dividend trans_le_add1)
  moreover have "?o + unat L - 1 < (?o div ?p + 1) * ?p" using le pos Nlo by linarith
  ultimately have same: "(?o + unat L - 1) div ?p = ?o div ?p"
    using ppos by (metis add.commute div_nat_eqI mult.commute plus_1_eq_Suc)
  have le1: "unat L \<le> round_up (?o + 1) ?p - ?o" using le by (simp only: ru)
  have le2: "unat L \<le> min (unat count) (unat (write_max m))"
    unfolding uL by (rule min.cobounded1)
  from L pos le1 le2 same show ?thesis by blast
qed

theorem write_planner_within_page_witness:
  "(12 :: u64) \<noteq> 0 \<and> page_size mailbox \<noteq> 0 \<and> write_max mailbox \<noteq> 0
   \<and> unat (10 :: u32) + unat (page_size mailbox) < 2 ^ 32
   \<and> at24_adjust_write_count mailbox 10 12 = Some 6
   \<and> 0 < unat (6 :: u64)
   \<and> unat (6 :: u64) \<le> round_up (unat (10 :: u32) + 1) (unat (page_size mailbox)) - unat (10 :: u32)
   \<and> unat (6 :: u64) \<le> min (unat (12 :: u64)) (unat (write_max mailbox))
   \<and> (unat (10 :: u32) + unat (6 :: u64) - 1) div unat (page_size mailbox) = unat (10 :: u32) div unat (page_size mailbox)"
proof -
  have h: "(12 :: u64) \<noteq> 0" "page_size mailbox \<noteq> 0" "write_max mailbox \<noteq> 0"
    "unat (10 :: u32) + unat (page_size mailbox) < 2 ^ 32"
    by simp_all
  have e: "at24_adjust_write_count mailbox 10 12 = Some 6"
    by (simp add: adapter_eval)
  from write_planner_within_page[OF h] e h show ?thesis by simp
qed

section \<open>Zero-length requests\<close>

text \<open>
  C5. A write of zero bytes is rejected with \<^verbatim>\<open>-EINVAL\<close>; a read of zero bytes
  returns 0 (success). Neither touches the outside world: the call log is
  unchanged, whatever the offset, the buffer and the session.
\<close>

theorem zero_length_asymmetry:
  "at24_write k mmc_mailbox log off val 0 = Some (- word_of_int EINVAL, log)
   \<and> at24_read k mmc_mailbox log off val 0 = Some (0, log)"
  by (simp add: at24_write_def at24_read_def)

section \<open>Bounds check\<close>

text \<open>
  C4, as stated: for every offset and count with \<open>offset + count > region_size\<close>
  both read and write return \<^verbatim>\<open>-EINVAL\<close> without a transport call. For reads this
  fails at count 0: the zero-length test comes first, and a read of zero bytes
  at any offset returns 0.
\<close>

theorem zero_read_beyond_region_counterexample:
  "unat (byte_len mailbox) < unat (5000 :: u32) + unat (0 :: u64)
   \<and> at24_read (demo_kernel []) mailbox [] 5000 0 0 = Some (0, [])"
  by (simp add: at24_read_def)

text \<open>
  C4, amended: for every offset and count whose sum exceeds the region size
  (and does not overflow the 64 bits of \<^verbatim>\<open>size_t\<close>), write returns \<^verbatim>\<open>-EINVAL\<close>, and
  read returns \<^verbatim>\<open>-EINVAL\<close> when count is not zero and 0 when it is; in each case the
  call log is unchanged: no regmap call, no control write, no other external call.
\<close>

theorem out_of_range_rejected:
  assumes "unat (byte_len m) < unat off + unat count"
    and "unat off + unat count < 2 ^ 64"
  shows "at24_write k m log off val count = Some (- word_of_int EINVAL, log)
       \<and> at24_read k m log off val count = Some (if count = 0 then 0 else - word_of_int EINVAL, log)"
proof -
  have "ucast off + count > (ucast (byte_len m) :: u64)"
    using assms by (simp only: bounds_check_nat)
  then show ?thesis
    by (simp add: at24_write_body at24_read_body at24_body_rejects)
qed

theorem out_of_range_rejected_witness:
  "unat (byte_len mailbox) < unat (2040 :: u32) + unat (16 :: u64)
   \<and> unat (2040 :: u32) + unat (16 :: u64) < 2 ^ 64
   \<and> at24_write (demo_kernel []) mailbox [] 2040 0 16 = Some (- word_of_int EINVAL, [])
   \<and> at24_read (demo_kernel []) mailbox [] 2040 0 16 = Some (- word_of_int EINVAL, [])"
proof -
  have h: "unat (byte_len mailbox) < unat (2040 :: u32) + unat (16 :: u64)"
    "unat (2040 :: u32) + unat (16 :: u64) < 2 ^ 64"
    by simp_all
  from out_of_range_rejected[OF h, of "demo_kernel []" "[]" 0] h show ?thesis by simp
qed

text \<open>
  The bound on the sum is needed. Where the 64-bit sum wraps around, the bounds
  check lets the request through: a read of \<open>2 ^ 64 - 1\<close> bytes at offset 1
  takes the page lock and starts to transfer.
\<close>

lemma wrapped_sum_passes_bounds_check:
  "unat (byte_len mailbox) < unat (1 :: u32) + unat (0xFFFFFFFFFFFFFFFF :: u64)
   \<and> at24_read (demo_kernel [7, 10]) mailbox [] 1 0 0xFFFFFFFFFFFFFFFF =
     Some (- word_of_int ETIMEDOUT,
           [Pm_runtime_get_sync 0, Mutex_lock,
            Jiffies 8, Jiffies 12, Bulk Wr MB_LOCK_OFFS (Stack_byte MB_LOCK_FLAG) 1 0,
            Jiffies 20, Jiffies 24, Bulk Rd 1 (Heap 0) 128 (- 5), Usleep_range 1000 1500,
            Jiffies 36, Bulk Rd 1 (Heap 0) 128 (- 5), Usleep_range 1000 1500,
            Mutex_unlock, Pm_runtime_put])"
  by (simp add: entry_eval word_le_nat_alt)

section \<open>The retrying adapters\<close>

text \<open>
  C6. Let \<open>n\<close> be the planned chunk length of an adapter call (read or write).
  If some attempt succeeds or samples a time that is not before the deadline,
  the call returns. Whenever it returns, its log is the read of \<^verbatim>\<open>jiffies\<close> that
  fixes the deadline (time at entry plus the write timeout) followed by
  attempts, each sampling \<^verbatim>\<open>jiffies\<close> before its regmap call for \<open>n\<close> bytes; the
  first successful attempt ends the call with result \<open>n\<close>; a failed attempt is
  followed by the back-off sleep and, exactly when its sample was before the
  deadline, by another attempt; and the result is \<^verbatim>\<open>-ETIMEDOUT\<close> if and only if no
  attempt succeeded.
\<close>

theorem retrying_adapter_contract:
  assumes "plan k m d offset count = Some n"
  shows "((\<exists>j. ends_loop k (Suc (length log)) (deadline k log) j) \<longrightarrow>
            (\<exists>y. at24_regmap d k m log buf offset count = Some y))
       \<and> (at24_regmap d k m log buf offset count = Some (r, log') \<longrightarrow>
            (\<exists>tr. log' = log @ tr \<and> adapter_trace k d buf offset n tr r
               \<and> (r = - word_of_int ETIMEDOUT \<longleftrightarrow> \<not> list_ex succeeded tr)))"
proof (intro conjI impI)
  assume "\<exists>j. ends_loop k (Suc (length log)) (deadline k log) j"
  then obtain j where "ends_loop k (length (log @ [Jiffies (jiffies_at k (length log))])) (deadline k log) j"
    by auto
  from retry_loop_returns[OF this] assms
  show "\<exists>y. at24_regmap d k m log buf offset count = Some y"
    by (simp add: at24_regmap_plan)
next
  assume ret: "at24_regmap d k m log buf offset count = Some (r, log')"
  from at24_regmap_trace[OF ret] assms obtain es
    where log': "log' = log @ Jiffies (jiffies_at k (length log)) # es"
      and tr: "retry_trace d buf offset n (deadline k log) es r" by auto
  have "n \<noteq> - word_of_int ETIMEDOUT"
    using plan_small[OF assms] etimedout_large by auto
  with retry_trace_result[OF tr]
  have "r = - word_of_int ETIMEDOUT \<longleftrightarrow> \<not> list_ex succeeded es" by auto
  with log' tr show "\<exists>tr. log' = log @ tr \<and> adapter_trace k d buf offset n tr r
      \<and> (r = - word_of_int ETIMEDOUT \<longleftrightarrow> \<not> list_ex succeeded tr)"
    by (intro exI[of _ "Jiffies (jiffies_at k (length log)) # es"]) (simp add: deadline_def)
qed

theorem retrying_adapter_contract_witness:
  "plan (demo_kernel [2]) mailbox Wr 10 12 = Some 6
   \<and> ends_loop (demo_kernel [2]) (Suc (length ([] :: event list))) (deadline (demo_kernel [2]) []) 1
   \<and> at24_regmap Wr (demo_kernel [2]) mailbox [] (Heap 0) 10 12 =
       Some (6, [Jiffies 0, Jiffies 4, Bulk Wr 10 (Heap 0) 6 (- 5), Usleep_range 1000 1500,
                 Jiffies 16, Bulk Wr 10 (Heap 0) 6 0])
   \<and> adapter_trace (demo_kernel [2]) Wr (Heap 0) 10 6
        [Jiffies 0, Jiffies 4, Bulk Wr 10 (Heap 0) 6 (- 5), Usleep_range 1000 1500,
         Jiffies 16, Bulk Wr 10 (Heap 0) 6 0] 6
   \<and> ((6 :: u64) = - word_of_int ETIMEDOUT \<longleftrightarrow>
        \<not> list_ex succeeded [Jiffies 0, Jiffies 4, Bulk Wr 10 (Heap 0) 6 (- 5), Usleep_range 1000 1500,
                              Jiffies 16, Bulk Wr 10 (Heap 0) 6 0])"
proof -
  let ?k = "demo_kernel [2]"
  let ?tr = "[Jiffies 0, Jiffies 4, Bulk Wr 10 (Heap 0) 6 (- 5), Usleep_range 1000 1500,
              Jiffies 16, Bulk Wr 10 (Heap 0) 6 0]"
  have p: "plan ?k mailbox Wr 10 12 = Some 6"
    by (simp add: adapter_eval)
  have l: "ends_loop ?k (Suc (length ([] :: event list))) (deadline ?k []) 1"
    by (simp add: adapter_eval ends_loop_def)
  have e: "at24_regmap Wr ?k mailbox [] (Heap 0) 10 12 = Some (6, ?tr)"
    by (simp add: adapter_eval)
  from retrying_adapter_contract[OF p, of "[]" "Heap 0" 6 ?tr] e
  have "adapter_trace ?k Wr (Heap 0) 10 6 ?tr 6
      \<and> ((6 :: u64) = - word_of_int ETIMEDOUT \<longleftrightarrow> \<not> list_ex succeeded ?tr)"
    by (auto simp only: append_Nil)
  with p l e show ?thesis by blast
qed

text \<open>
  C10. An adapter call (read or write) makes its first regmap call before it
  looks at the deadline. With \<open>n\<close> the planned length, the call is: the read of
  \<^verbatim>\<open>jiffies\<close> for the deadline, the first sample, the first regmap call, and only
  then either the return of \<open>n\<close>, or the back-off sleep followed by the rest of
  the retry loop or by the return of \<^verbatim>\<open>-ETIMEDOUT\<close>. So every call that returns
  has at least one regmap call in its log; and when the timeout is zero or the
  deadline has passed at the first sample, the call returns after exactly one
  attempt.
\<close>

theorem adapter_attempts_at_least_once:
  "(at24_regmap d k m log buf offset count = Some (r, log') \<longrightarrow>
      (\<exists>n now t st rest. plan k m d offset count = Some n
          \<and> log' = log @ Jiffies now # Jiffies t # Bulk d offset buf n st # rest))
   \<and> (plan k m d offset count = Some n \<longrightarrow>
      at24_regmap d k m log buf offset count =
        (let t = jiffies_at k (Suc (length log));
             st = regmap_status k (Suc (Suc (length log)));
             log1 = log @ [Jiffies (jiffies_at k (length log)), Jiffies t, Bulk d offset buf n st]
         in if st = 0 then Some (n, log1)
            else if time_before t (deadline k log)
                 then retry_loop k d (deadline k log) buf offset n (log1 @ [Usleep_range 1000 1500])
                 else Some (- word_of_int ETIMEDOUT, log1 @ [Usleep_range 1000 1500])))
   \<and> (plan k m d offset count = Some n
        \<and> \<not> time_before (jiffies_at k (Suc (length log))) (deadline k log) \<longrightarrow>
      at24_regmap d k m log buf offset count =
        Some (let st = regmap_status k (Suc (Suc (length log)));
                  tr = [Jiffies (jiffies_at k (length log)), Jiffies (jiffies_at k (Suc (length log))),
                        Bulk d offset buf n st]
              in if st = 0 then (n, log @ tr)
                 else (- word_of_int ETIMEDOUT, log @ tr @ [Usleep_range 1000 1500])))"
proof (intro conjI impI)
  assume ret: "at24_regmap d k m log buf offset count = Some (r, log')"
  from at24_regmap_trace[OF ret] obtain n es
    where n: "plan k m d offset count = Some n"
      and log': "log' = log @ Jiffies (jiffies_at k (length log)) # es"
      and tr: "retry_trace d buf offset n (deadline k log) es r" by blast
  from tr obtain t st rest where "es = Jiffies t # Bulk d offset buf n st # rest"
    by (cases "(d, buf, offset, n, deadline k log, es, r)" rule: retry_trace.cases) auto
  with n log' show "\<exists>n now t st rest. plan k m d offset count = Some n
      \<and> log' = log @ Jiffies now # Jiffies t # Bulk d offset buf n st # rest"
    by blast
next
  assume n: "plan k m d offset count = Some n"
  have "at24_regmap d k m log buf offset count =
      retry_loop k d (deadline k log) buf offset n (log @ [Jiffies (jiffies_at k (length log))])"
    using n by (simp add: at24_regmap_plan)
  also have "\<dots> = (let t = jiffies_at k (Suc (length log));
             st = regmap_status k (Suc (Suc (length log)));
             log1 = log @ [Jiffies (jiffies_at k (length log)), Jiffies t, Bulk d offset buf n st]
         in if st = 0 then Some (n, log1)
            else if time_before t (deadline k log)
                 then retry_loop k d (deadline k log) buf offset n (log1 @ [Usleep_range 1000 1500])
                 else Some (- word_of_int ETIMEDOUT, log1 @ [Usleep_range 1000 1500]))"
    by (subst retry_loop_unfold) (simp add: Let_def)
  finally show "at24_regmap d k m log buf offset count =
        (let t = jiffies_at k (Suc (length log));
             st = regmap_status k (Suc (Suc (length log)));
             log1 = log @ [Jiffies (jiffies_at k (length log)), Jiffies t, Bulk d offset buf n st]
         in if st = 0 then Some (n, log1)
            else if time_before t (deadline k log)
                 then retry_loop k d (deadline k log) buf offset n (log1 @ [Usleep_range 1000 1500])
                 else Some (- word_of_int ETIMEDOUT, log1 @ [Usleep_range 1000 1500]))" .
next
  assume "plan k m d offset count = Some n
     \<and> \<not> time_before (jiffies_at k (Suc (length log))) (deadline k log)"
  then show "at24_regmap d k m log buf offset count =
        Some (let st = regmap_status k (Suc (Suc (length log)));
                  tr = [Jiffies (jiffies_at k (length log)), Jiffies (jiffies_at k (Suc (length log))),
                        Bulk d offset buf n st]
              in if st = 0 then (n, log @ tr)
                 else (- word_of_int ETIMEDOUT, log @ tr @ [Usleep_range 1000 1500]))"
    by (simp add: at24_regmap_plan retry_loop_success retry_loop_timeout Let_def)
qed

theorem adapter_attempts_at_least_once_witness:
  "plan ((demo_kernel [2])\<lparr>at24_write_timeout := 0\<rparr>) mailbox Rd 0 2 = Some 2
   \<and> \<not> time_before (jiffies_at ((demo_kernel [2])\<lparr>at24_write_timeout := 0\<rparr>) (Suc (length ([] :: event list))))
          (deadline ((demo_kernel [2])\<lparr>at24_write_timeout := 0\<rparr>) [])
   \<and> at24_regmap Rd ((demo_kernel [2])\<lparr>at24_write_timeout := 0\<rparr>) mailbox [] (Heap 0) 0 2 =
       Some (- word_of_int ETIMEDOUT,
             [Jiffies 0, Jiffies 4, Bulk Rd 0 (Heap 0) 2 (- 5), Usleep_range 1000 1500])
   \<and> (\<exists>n now t st rest. plan ((demo_kernel [2])\<lparr>at24_write_timeout := 0\<rparr>) mailbox Rd 0 2 = Some n
         \<and> [Jiffies 0, Jiffies 4, Bulk Rd 0 (Heap 0) 2 (- 5), Usleep_range 1000 1500]
             = [] @ Jiffies now # Jiffies t # Bulk Rd 0 (Heap 0) n st # rest)"
proof -
  let ?k = "(demo_kernel [2])\<lparr>at24_write_timeout := 0\<rparr>"
  let ?tr = "[Jiffies 0, Jiffies 4, Bulk Rd 0 (Heap 0) 2 (- 5), Usleep_range 1000 1500]"
  have p: "plan ?k mailbox Rd 0 2 = Some 2"
    by (simp add: adapter_eval)
  have t: "\<not> time_before (jiffies_at ?k (Suc (length ([] :: event list)))) (deadline ?k [])"
    by (simp add: adapter_eval)
  from adapter_attempts_at_least_once[of Rd ?k mailbox "[]" "Heap 0" 0 2 _ _ 2] p t
  have e: "at24_regmap Rd ?k mailbox [] (Heap 0) 0 2 = Some (- word_of_int ETIMEDOUT, ?tr)"
    by (simp add: ETIMEDOUT_def)
  from adapter_attempts_at_least_once[of Rd ?k mailbox "[]" "Heap 0" 0 2 "- word_of_int ETIMEDOUT" ?tr] e
  have "\<exists>n now t st rest. plan ?k mailbox Rd 0 2 = Some n
         \<and> ?tr = [] @ Jiffies now # Jiffies t # Bulk Rd 0 (Heap 0) n st # rest"
    by blast
  with p t e show ?thesis by blast
qed

section \<open>Page lock\<close>

text \<open>
  C1 (the code departs from the claim). A read and a write of two bytes at
  offset 0 of the mailbox, against a bus that takes the lock-set write and then
  fails every data transfer until the adapter times out. Both calls return
  \<^verbatim>\<open>-ETIMEDOUT\<close>, and both release the mutex; but the log goes from the last
  back-off sleep straight to \<^verbatim>\<open>mutex_unlock\<close>: the lock byte, set at the start,
  is never cleared.
\<close>

theorem failed_transfer_leaves_page_lock_set:
  "at24_read (demo_kernel [7, 10]) mailbox [] 0 0 2 =
     Some (- word_of_int ETIMEDOUT,
           [Pm_runtime_get_sync 0, Mutex_lock,
            Jiffies 8, Jiffies 12, Bulk Wr MB_LOCK_OFFS (Stack_byte MB_LOCK_FLAG) 1 0,
            Jiffies 20, Jiffies 24, Bulk Rd 0 (Heap 0) 2 (- 5), Usleep_range 1000 1500,
            Jiffies 36, Bulk Rd 0 (Heap 0) 2 (- 5), Usleep_range 1000 1500,
            Mutex_unlock, Pm_runtime_put])
   \<and> at24_write (demo_kernel [7, 10]) mailbox [] 0 0 2 =
     Some (- word_of_int ETIMEDOUT,
           [Pm_runtime_get_sync 0, Mutex_lock,
            Jiffies 8, Jiffies 12, Bulk Wr MB_LOCK_OFFS (Stack_byte MB_LOCK_FLAG) 1 0,
            Jiffies 20, Jiffies 24, Bulk Wr 0 (Heap 0) 2 (- 5), Usleep_range 1000 1500,
            Jiffies 36, Bulk Wr 0 (Heap 0) 2 (- 5), Usleep_range 1000 1500,
            Mutex_unlock, Pm_runtime_put])"
  by (simp add: entry_eval word_le_nat_alt)

text \<open>
  C2, as stated: every read or write call with count > 1 is preceded by exactly
  one lock-set control write. This fails for a call that the bounds check
  rejects: two bytes at offset 2047 of the 2048-byte mailbox are refused with
  \<^verbatim>\<open>-EINVAL\<close> before anything is written.
\<close>

theorem rejected_call_sets_no_lock_counterexample:
  "(1 :: u64) < 2
   \<and> at24_read (demo_kernel []) mailbox [] 2047 0 2 = Some (- word_of_int EINVAL, [])
   \<and> at24_write (demo_kernel []) mailbox [] 2047 0 2 = Some (- word_of_int EINVAL, [])"
  by (simp add: entry_eval)

text \<open>
  C2, amended. A read or write call returns whenever every adapter call ends
  (some attempt succeeds or samples a time that is not before the deadline), the
  page size is not 0, \<open>off + count \<le> byte_len\<close>, the I/O limit is not 0 for a
  read, and for a write \<^verbatim>\<open>write_max\<close> is not 0 and the region ends at least one
  page below \<open>2 ^ 32\<close>. For every call that returns: if count > 1, the call
  passes the bounds check and \<^verbatim>\<open>pm_runtime_get_sync\<close> does not fail, then what the
  call adds to the log is exactly: the resume and \<^verbatim>\<open>mutex_lock\<close>; one control
  write of \<^verbatim>\<open>MB_LOCK_FLAG\<close> to \<^verbatim>\<open>MB_LOCK_OFFS\<close> (one adapter call, retried as any
  other, of one byte when \<^verbatim>\<open>write_max\<close> is not 0: \<open>lock_write_is_one_byte\<close>); the
  data chunks, which are regmap calls on the caller's buffer with their samples
  and back-off sleeps, so that no control write is among them; then, when the
  call returns 0, one control write of 0 to \<^verbatim>\<open>MB_LOCK_OFFS\<close>, and nothing when it
  returns an error; \<^verbatim>\<open>mutex_unlock\<close> and \<^verbatim>\<open>pm_runtime_put\<close>. The lock-set write
  is thus the only one of the call. In every other case (count \<open>\<le>\<close> 1, or a call
  rejected before the transfer) the call makes no control write.
\<close>

theorem page_lock_brackets_transfer:
  "((\<forall>l. \<exists>j. ends_loop k (Suc (length l)) (deadline k l) j)
      \<and> page_size m \<noteq> 0
      \<and> unat off + unat count \<le> unat (byte_len m)
      \<and> (d = Rd \<longrightarrow> mmc_mailbox_io_limit k \<noteq> 0)
      \<and> (d = Wr \<longrightarrow> write_max m \<noteq> 0 \<and> unat (byte_len m) + unat (page_size m) \<le> 2 ^ 32)
     \<longrightarrow> (\<exists>ret log'. at24_call d k m log off val count = Some (ret, log')))
   \<and> (at24_call d k m log off val count = Some (ret, log') \<longrightarrow>
        (1 < count \<and> \<not> ucast off + count > (ucast (byte_len m) :: u64)
            \<and> \<not> pm_status k (length log) <s 0 \<longrightarrow>
          (\<exists>sets data clears.
             log' = log @ [Pm_runtime_get_sync (pm_status k (length log)), Mutex_lock]
                        @ sets @ data @ clears @ [Mutex_unlock, Pm_runtime_put]
             \<and> control_trace k m MB_LOCK_FLAG sets
             \<and> (\<forall>e\<in>set data. data_event e \<and> \<not> control_write e)
             \<and> (if ret = 0 then control_trace k m 0 clears else clears = [])))
      \<and> (\<not> (1 < count \<and> \<not> ucast off + count > (ucast (byte_len m) :: u64)
               \<and> \<not> pm_status k (length log) <s 0) \<longrightarrow>
          (\<exists>es. log' = log @ es \<and> \<not> list_ex control_write es)))"
proof (intro conjI impI)
  assume h: "(\<forall>l. \<exists>j. ends_loop k (Suc (length l)) (deadline k l) j)
      \<and> page_size m \<noteq> 0
      \<and> unat off + unat count \<le> unat (byte_len m)
      \<and> (d = Rd \<longrightarrow> mmc_mailbox_io_limit k \<noteq> 0)
      \<and> (d = Wr \<longrightarrow> write_max m \<noteq> 0 \<and> unat (byte_len m) + unat (page_size m) \<le> 2 ^ 32)"
  show "\<exists>ret log'. at24_call d k m log off val count = Some (ret, log')"
  proof (rule at24_call_returns)
    show "\<exists>j. ends_loop k (Suc (length l)) (deadline k l) j" for l using h by blast
    show "page_size m \<noteq> 0" using h by blast
    show "unat off + unat count \<le> unat (byte_len m)" using h by blast
    show "mmc_mailbox_io_limit k \<noteq> 0" if "d = Rd" using h that by blast
    show "write_max m \<noteq> 0 \<and> unat (byte_len m) + unat (page_size m) \<le> 2 ^ 32" if "d = Wr"
      using h that by blast
  qed
next
  assume run: "at24_call d k m log off val count = Some (ret, log')"
  assume big: "1 < count \<and> \<not> ucast off + count > (ucast (byte_len m) :: u64)
            \<and> \<not> pm_status k (length log) <s 0"
  then have "count \<noteq> 0" by auto
  with run have body: "at24_body d k m log off val count = Some (ret, log')"
    by (cases d) (auto simp add: at24_call_def at24_read_body at24_write_body)
  let ?st = "pm_status k (length log)"
  from big have inside: "\<not> ucast off + count > (ucast (byte_len m) :: u64)"
    and resumed: "\<not> ?st <s 0" and many: "1 < count" by blast+
  from at24_body_trace[OF body inside resumed] obtain sets data clears x
    where log': "log' = log @ [Pm_runtime_get_sync ?st, Mutex_lock]
                        @ sets @ data @ clears @ [Mutex_unlock, Pm_runtime_put]"
      and sets: "if 1 < count then control_trace k m MB_LOCK_FLAG sets else sets = []"
      and data: "\<forall>e\<in>set data. data_event e"
      and fin: "case x of
            Completed \<Rightarrow> ret = 0 \<and> (if 1 < count then control_trace k m 0 clears else clears = [])
          | Returned r \<Rightarrow> ret = r \<and> r <s 0 \<and> clears = []"
    by blast
  have d2: "\<forall>e\<in>set data. data_event e \<and> \<not> control_write e"
    using data data_event_no_control by blast
  have cl: "if ret = 0 then control_trace k m 0 clears else clears = []"
    using fin many by (cases x) (auto simp add: word_sless_alt)
  from log' sets many d2 cl
  show "\<exists>sets data clears.
             log' = log @ [Pm_runtime_get_sync (pm_status k (length log)), Mutex_lock]
                        @ sets @ data @ clears @ [Mutex_unlock, Pm_runtime_put]
             \<and> control_trace k m MB_LOCK_FLAG sets
             \<and> (\<forall>e\<in>set data. data_event e \<and> \<not> control_write e)
             \<and> (if ret = 0 then control_trace k m 0 clears else clears = [])"
    by (intro exI[of _ sets] exI[of _ data] exI[of _ clears]) simp
next
  assume run: "at24_call d k m log off val count = Some (ret, log')"
  assume other: "\<not> (1 < count \<and> \<not> ucast off + count > (ucast (byte_len m) :: u64)
               \<and> \<not> pm_status k (length log) <s 0)"
  let ?st = "pm_status k (length log)"
  show "\<exists>es. log' = log @ es \<and> \<not> list_ex control_write es"
  proof (cases "count = 0")
    case True
    with run have "log' = log"
      by (cases d) (auto simp add: at24_call_def at24_read_body at24_write_body)
    then show ?thesis by simp
  next
    case False
    with run have body: "at24_body d k m log off val count = Some (ret, log')"
      by (cases d) (auto simp add: at24_call_def at24_read_body at24_write_body)
    show ?thesis
    proof (cases "ucast off + count > (ucast (byte_len m) :: u64)")
      case True
      with body have "log' = log" by (simp add: at24_body_rejects)
      then show ?thesis by simp
    next
      case inside: False
      show ?thesis
      proof (cases "?st <s 0")
        case True
        with body inside have "log' = log @ [Pm_runtime_get_sync ?st, Pm_runtime_put_noidle]"
          by (auto simp add: at24_body_no_resume)
        then show ?thesis by simp
      next
        case resumed: False
        with other inside have few: "\<not> 1 < count" by blast
        from at24_body_trace[OF body inside resumed] obtain sets data clears x
          where log': "log' = log @ [Pm_runtime_get_sync ?st, Mutex_lock]
                              @ sets @ data @ clears @ [Mutex_unlock, Pm_runtime_put]"
            and sets: "if 1 < count then control_trace k m MB_LOCK_FLAG sets else sets = []"
            and data: "\<forall>e\<in>set data. data_event e"
            and fin: "case x of
                  Completed \<Rightarrow> ret = 0 \<and> (if 1 < count then control_trace k m 0 clears else clears = [])
                | Returned r \<Rightarrow> ret = r \<and> r <s 0 \<and> clears = []"
          by blast
        have nc: "\<not> list_ex control_write data"
          using data data_event_no_control by (auto simp add: list_ex_iff)
        from few sets fin have "sets = []" "clears = []" by (cases x; simp)+
        with log' nc show ?thesis by (simp add: list_ex_iff)
      qed
    qed
  qed
qed

theorem page_lock_brackets_transfer_witness:
  "(\<forall>l. \<exists>j. ends_loop (demo_kernel []) (Suc (length l)) (deadline (demo_kernel []) l) j)
   \<and> page_size mailbox \<noteq> 0
   \<and> unat (10 :: u32) + unat (12 :: u64) \<le> unat (byte_len mailbox)
   \<and> write_max mailbox \<noteq> 0
   \<and> unat (byte_len mailbox) + unat (page_size mailbox) \<le> 2 ^ 32
   \<and> (\<exists>ret log'. at24_call Wr (demo_kernel []) mailbox [] 10 0 12 = Some (ret, log'))
   \<and> at24_call Wr (demo_kernel []) mailbox [] 10 0 12 =
     Some (0, [Pm_runtime_get_sync 0, Mutex_lock,
               Jiffies 8, Jiffies 12, Bulk Wr MB_LOCK_OFFS (Stack_byte MB_LOCK_FLAG) 1 0,
               Jiffies 20, Jiffies 24, Bulk Wr 10 (Heap 0) 6 0,
               Jiffies 32, Jiffies 36, Bulk Wr 16 (Heap 6) 6 0,
               Jiffies 44, Jiffies 48, Bulk Wr MB_LOCK_OFFS (Stack_byte 0) 1 0,
               Mutex_unlock, Pm_runtime_put])
   \<and> (1 :: u64) < 12
   \<and> \<not> ucast (10 :: u32) + (12 :: u64) > (ucast (byte_len mailbox) :: u64)
   \<and> \<not> pm_status (demo_kernel []) (length ([] :: event list)) <s 0
   \<and> (\<exists>sets data clears.
         [Pm_runtime_get_sync 0, Mutex_lock,
          Jiffies 8, Jiffies 12, Bulk Wr MB_LOCK_OFFS (Stack_byte MB_LOCK_FLAG) 1 0,
          Jiffies 20, Jiffies 24, Bulk Wr 10 (Heap 0) 6 0,
          Jiffies 32, Jiffies 36, Bulk Wr 16 (Heap 6) 6 0,
          Jiffies 44, Jiffies 48, Bulk Wr MB_LOCK_OFFS (Stack_byte 0) 1 0,
          Mutex_unlock, Pm_runtime_put]
           = [] @ [Pm_runtime_get_sync (pm_status (demo_kernel []) (length ([] :: event list))), Mutex_lock]
                @ sets @ data @ clears @ [Mutex_unlock, Pm_runtime_put]
         \<and> control_trace (demo_kernel []) mailbox MB_LOCK_FLAG sets
         \<and> list_all (\<lambda>e. data_event e \<and> \<not> control_write e) data
         \<and> control_trace (demo_kernel []) mailbox 0 clears)"
proof -
  let ?k = "demo_kernel []"
  let ?L = "[Pm_runtime_get_sync 0, Mutex_lock,
               Jiffies 8, Jiffies 12, Bulk Wr MB_LOCK_OFFS (Stack_byte MB_LOCK_FLAG) 1 0,
               Jiffies 20, Jiffies 24, Bulk Wr 10 (Heap 0) 6 0,
               Jiffies 32, Jiffies 36, Bulk Wr 16 (Heap 6) 6 0,
               Jiffies 44, Jiffies 48, Bulk Wr MB_LOCK_OFFS (Stack_byte 0) 1 0,
               Mutex_unlock, Pm_runtime_put]"
  have r: "\<forall>l. \<exists>j. ends_loop ?k (Suc (length l)) (deadline ?k l) j"
    by (simp add: ends_loop_def)
  have s: "page_size mailbox \<noteq> 0"
    "unat (10 :: u32) + unat (12 :: u64) \<le> unat (byte_len mailbox)"
    "write_max mailbox \<noteq> 0"
    "unat (byte_len mailbox) + unat (page_size mailbox) \<le> 2 ^ 32"
    by simp_all
  have e: "at24_call Wr ?k mailbox [] 10 0 12 = Some (0, ?L)"
    by (simp add: entry_eval word_le_nat_alt)
  have h: "(1 :: u64) < 12 \<and> \<not> ucast (10 :: u32) + (12 :: u64) > (ucast (byte_len mailbox) :: u64)
      \<and> \<not> pm_status ?k (length ([] :: event list)) <s 0"
    by (simp add: word_sless_alt)
  note inst = page_lock_brackets_transfer[of ?k mailbox 10 12 Wr "[]" 0 0 ?L]
  from inst r s have ret: "\<exists>ret log'. at24_call Wr ?k mailbox [] 10 0 12 = Some (ret, log')"
    by blast
  from inst e h
  have "\<exists>sets data clears.
         ?L = [] @ [Pm_runtime_get_sync (pm_status ?k (length ([] :: event list))), Mutex_lock]
                @ sets @ data @ clears @ [Mutex_unlock, Pm_runtime_put]
         \<and> control_trace ?k mailbox MB_LOCK_FLAG sets
         \<and> (\<forall>e\<in>set data. data_event e \<and> \<not> control_write e)
         \<and> (if (0 :: u32) = 0 then control_trace ?k mailbox 0 clears else clears = [])"
    by blast
  then have "\<exists>sets data clears.
         ?L = [] @ [Pm_runtime_get_sync (pm_status ?k (length ([] :: event list))), Mutex_lock]
                @ sets @ data @ clears @ [Mutex_unlock, Pm_runtime_put]
         \<and> control_trace ?k mailbox MB_LOCK_FLAG sets
         \<and> list_all (\<lambda>e. data_event e \<and> \<not> control_write e) data
         \<and> control_trace ?k mailbox 0 clears"
    by (simp only: list_all_iff if_True refl)
  with r s ret e h show ?thesis by blast
qed

section \<open>Chunks stay inside the request\<close>

text \<open>
  C9, as stated: every data chunk of a bounds-checked request lies inside the
  range that was checked. This fails for a write where the 32-bit \<^verbatim>\<open>roundup\<close>
  of the planner wraps around: in a region that ends at \<open>2 ^ 32 - 1\<close>, the write
  of one byte at \<open>2 ^ 32 - 2\<close> passes the bounds check and transfers two
  bytes; the remaining count then wraps around and the loop goes on at offset 0.
\<close>

theorem write_chunk_leaves_request_counterexample:
  "unat (0xFFFFFFFE :: u32) + unat (1 :: u64) \<le> unat (byte_len top_session)
   \<and> at24_write (demo_kernel [7, 10]) top_session [] 0xFFFFFFFE 0 1 =
      Some (- word_of_int ETIMEDOUT,
        [Pm_runtime_get_sync 0, Mutex_lock, Jiffies 8, Jiffies 12,
         Bulk Wr 0xFFFFFFFE (Heap 0) 2 0, Jiffies 20, Jiffies 24,
         Bulk Wr 0 (Heap 2) 16 (- 5), Usleep_range 1000 1500,
         Jiffies 36, Bulk Wr 0 (Heap 2) 16 (- 5),
         Usleep_range 1000 1500, Mutex_unlock, Pm_runtime_put])
   \<and> \<not> within 0xFFFFFFFE 0 1 (Bulk Wr 0xFFFFFFFE (Heap 0) 2 0)"
  by (simp add: entry_eval word_le_nat_alt)

text \<open>
  C9, amended: for every read or write call that returns, with
  \<open>off + count \<le> byte_len\<close>, and for writes with a region that ends at least one
  page below \<open>2 ^ 32\<close> (\<open>byte_len + page_size \<le> 2 ^ 32\<close>). Every regmap call on the
  caller's buffer lies inside \<open>[off, off + count)\<close>, with the buffer cursor as
  far from \<open>val\<close> as the register is from \<open>off\<close>. The transferred chunks replay
  the pending transfer from \<open>(off, val, count)\<close>: each starts where the previous
  one ended, in registers and in the buffer, and takes its length off the
  remaining count, so that offset plus remaining count stays \<open>off + count\<close>; when
  the call returns 0 nothing remains.
\<close>

theorem chunks_stay_in_request:
  assumes "at24_call d k m log off val count = Some (ret, log')"
    and "unat off + unat count \<le> unat (byte_len m)"
    and "d = Wr \<Longrightarrow> unat (byte_len m) + unat (page_size m) \<le> 2 ^ 32"
  shows "\<exists>es off' cur' rest.
           log' = log @ es
         \<and> (\<forall>e\<in>set es. within off val count e)
         \<and> advance (unat off, val, unat count) (chunks es) = Some (off', cur', rest)
         \<and> off' + rest = unat off + unat count
         \<and> (ret = 0 \<longrightarrow> rest = 0)"
proof (cases "count = 0")
  case True
  with assms(1) have "log' = log"
    by (cases d) (auto simp add: at24_call_def at24_read_body at24_write_body)
  with True show ?thesis by simp
next
  case False
  with assms(1) have body: "at24_body d k m log off val count = Some (ret, log')"
    by (cases d) (auto simp add: at24_call_def at24_read_body at24_write_body)
  let ?st = "pm_status k (length log)"
  have top: "unat (byte_len m) < 2 ^ 32" by (rule unat_u32_less)
  then have "unat off + unat count < 2 ^ 64" using assms(2) by simp
  from bounds_check_nat[OF this, of m] assms(2)
  have inside: "\<not> ucast off + count > (ucast (byte_len m) :: u64)" by simp
  show ?thesis
  proof (cases "?st <s 0")
    case True
    with body inside
    have "ret = ?st" "log' = log @ [Pm_runtime_get_sync ?st, Pm_runtime_put_noidle]"
      by (auto simp add: at24_body_no_resume)
    with True show ?thesis by (auto simp add: word_sless_alt)
  next
    case resumed: False
    let ?pre = "[Pm_runtime_get_sync ?st, Mutex_lock]"
    from at24_body_trace[OF body inside resumed] obtain sets data clears x
      where log': "log' = log @ ?pre @ sets @ data @ clears @ [Mutex_unlock, Pm_runtime_put]"
        and sets: "if 1 < count then control_trace k m MB_LOCK_FLAG sets else sets = []"
        and loop: "chunk_loop (at24_regmap d k m) val off count (log @ ?pre @ sets)
                     = Some (x, (log @ ?pre @ sets) @ data @ exit_tail x)"
        and fin: "case x of
              Completed \<Rightarrow> ret = 0 \<and> (if 1 < count then control_trace k m 0 clears else clears = [])
            | Returned r \<Rightarrow> ret = r \<and> r <s 0 \<and> clears = []"
      by blast
    from chunk_loop_range[OF loop assms(2) top assms(3)] obtain es rest off' cur'
      where "(log @ ?pre @ sets) @ data @ exit_tail x = (log @ ?pre @ sets) @ es @ exit_tail x"
        and w: "\<forall>e\<in>set es. within off val count e"
        and adv: "advance (unat off, val, unat count) (chunks es) = Some (off', cur', rest)"
        and nothing_left: "x = Completed \<longrightarrow> rest = 0"
      by blast
    then have es: "es = data" by simp
    have s0: "chunks sets = [] \<and> (\<forall>e\<in>set sets. within off val count e)"
      using sets control_trace_inert[of k m MB_LOCK_FLAG sets off val count]
      by (cases "1 < count") simp_all
    have c0: "chunks clears = [] \<and> (\<forall>e\<in>set clears. within off val count e)"
      using fin control_trace_inert[of k m 0 clears off val count]
      by (cases x; cases "1 < count") simp_all
    let ?es = "?pre @ sets @ data @ clears @ [Mutex_unlock, Pm_runtime_put]"
    have ch: "chunks ?es = chunks data"
      using s0 c0 by (simp add: chunks_append)
    have wi: "\<forall>e\<in>set ?es. within off val count e"
      using s0 c0 w es by auto
    have zero: "ret = 0 \<longrightarrow> rest = 0"
      using fin nothing_left by (cases x) (auto simp add: word_sless_alt)
    from advance_sum[OF adv] have "off' + rest = unat off + unat count" by simp
    with log' ch wi adv es zero show ?thesis
      by (intro exI[of _ ?es] exI[of _ off'] exI[of _ cur'] exI[of _ rest]) simp
  qed
qed

theorem chunks_stay_in_request_witness:
  "at24_call Wr (demo_kernel []) mailbox [] 10 0 12 =
     Some (0, [Pm_runtime_get_sync 0, Mutex_lock,
               Jiffies 8, Jiffies 12, Bulk Wr MB_LOCK_OFFS (Stack_byte MB_LOCK_FLAG) 1 0,
               Jiffies 20, Jiffies 24, Bulk Wr 10 (Heap 0) 6 0,
               Jiffies 32, Jiffies 36, Bulk Wr 16 (Heap 6) 6 0,
               Jiffies 44, Jiffies 48, Bulk Wr MB_LOCK_OFFS (Stack_byte 0) 1 0,
               Mutex_unlock, Pm_runtime_put])
   \<and> unat (10 :: u32) + unat (12 :: u64) \<le> unat (byte_len mailbox)
   \<and> unat (byte_len mailbox) + unat (page_size mailbox) \<le> 2 ^ 32
   \<and> (\<exists>es off' cur' rest.
         [Pm_runtime_get_sync 0, Mutex_lock,
          Jiffies 8, Jiffies 12, Bulk Wr MB_LOCK_OFFS (Stack_byte MB_LOCK_FLAG) 1 0,
          Jiffies 20, Jiffies 24, Bulk Wr 10 (Heap 0) 6 0,
          Jiffies 32, Jiffies 36, Bulk Wr 16 (Heap 6) 6 0,
          Jiffies 44, Jiffies 48, Bulk Wr MB_LOCK_OFFS (Stack_byte 0) 1 0,
          Mutex_unlock, Pm_runtime_put] = [] @ es
       \<and> list_all (within 10 0 12) es
       \<and> advance (unat (10 :: u32), 0, unat (12 :: u64)) (chunks es) = Some (off', cur', rest)
       \<and> off' + rest = unat (10 :: u32) + unat (12 :: u64)
       \<and> rest = 0)"
proof -
  let ?k = "demo_kernel []"
  let ?L = "[Pm_runtime_get_sync 0, Mutex_lock,
               Jiffies 8, Jiffies 12, Bulk Wr MB_LOCK_OFFS (Stack_byte MB_LOCK_FLAG) 1 0,
               Jiffies 20, Jiffies 24, Bulk Wr 10 (Heap 0) 6 0,
               Jiffies 32, Jiffies 36, Bulk Wr 16 (Heap 6) 6 0,
               Jiffies 44, Jiffies 48, Bulk Wr MB_LOCK_OFFS (Stack_byte 0) 1 0,
               Mutex_unlock, Pm_runtime_put]"
  have e: "at24_call Wr ?k mailbox [] 10 0 12 = Some (0, ?L)"
    by (simp add: entry_eval word_le_nat_alt)
  have h: "unat (10 :: u32) + unat (12 :: u64) \<le> unat (byte_len mailbox)"
    "unat (byte_len mailbox) + unat (page_size mailbox) \<le> 2 ^ 32"
    by simp_all
  from chunks_stay_in_request[OF e h]
  have "\<exists>es off' cur' rest. ?L = [] @ es
       \<and> list_all (within 10 0 12) es
       \<and> advance (unat (10 :: u32), 0, unat (12 :: u64)) (chunks es) = Some (off', cur', rest)
       \<and> off' + rest = unat (10 :: u32) + unat (12 :: u64)
       \<and> rest = 0"
    by (simp only: list_all_iff append_Nil) blast
  with e h show ?thesis by blast
qed

section \<open>Power-off hook\<close>

text \<open>
  C8, as stated: invoked with a registered session, the hook writes the status
  byte once, delays, and then halts; the call never returns. In the code nothing
  halts: after the delay the hook raises the warning \<^verbatim>\<open>WARN_ON(1)\<close> and returns
  to its caller. Here against a bus that refuses the write.
\<close>

theorem poweroff_hook_returns_counterexample:
  "mmc_mailbox_do_poweroff (demo_kernel [0]) (Some mailbox) [] =
     Some [Bulk Wr MB_FPGA_STATUS_OFFS (Stack_byte MB_FPGA_STATUS_SHDN_FINISHED) 1 (- 5),
           Mdelay 1000, Warn_on]
   \<and> mmc_mailbox_do_poweroff (demo_kernel [0]) (Some mailbox) [] \<noteq> None"
  by (simp add: mmc_mailbox_do_poweroff_def regmap_bulk_def mdelay_def warn_on_def)

text \<open>
  C8, amended: invoked with a registered session, the hook makes exactly one
  regmap write of the one byte \<^verbatim>\<open>BIT(2)\<close> to offset 2046, whatever status that
  write returns (no retry, no sleep), then calls \<^verbatim>\<open>mdelay(1000)\<close>, then raises
  \<^verbatim>\<open>WARN_ON(1)\<close>, and returns. That the call does not return in normal operation
  rests on the power being cut during the delay, not on the code.
\<close>

theorem poweroff_hook_writes_once_delays_and_warns:
  "mmc_mailbox_do_poweroff k (Some inst) log =
     Some (log @ [Bulk Wr MB_FPGA_STATUS_OFFS (Stack_byte MB_FPGA_STATUS_SHDN_FINISHED) 1
                    (regmap_status k (length log)),
                  Mdelay 1000, Warn_on])
   \<and> MB_FPGA_STATUS_OFFS = 2046 \<and> MB_FPGA_STATUS_SHDN_FINISHED = 4"
  by (simp add: mmc_mailbox_do_poweroff_def regmap_bulk_def mdelay_def warn_on_def Let_def
      MB_FPGA_STATUS_OFFS_def MB_FPGA_STATUS_SHDN_FINISHED_def)



end
